theory Spec2Isabelle
  imports Complex_Main
begin

chapter \<open>The program\<close>

section \<open>utils/retry.js\<close>

text \<open>
  \<^verbatim>\<open>retry(fn, options)\<close> runs an asynchronous function up to \<^verbatim>\<open>maxAttempts\<close> times.

  A JavaScript number is a finite number, \<^verbatim>\<open>NaN\<close>, \<^verbatim>\<open>Infinity\<close> or \<^verbatim>\<open>-Infinity\<close>; finite
  numbers are taken exactly (no rounding, no overflow). The option \<^verbatim>\<open>maxAttempts\<close> is not
  checked by the code, so it is any value: \<^verbatim>\<open>undefined\<close> (the property is absent),
  \<^verbatim>\<open>null\<close>, a boolean (the command line passes \<^verbatim>\<open>true\<close> for \<^verbatim>\<open>--retry\<close> without a number), a
  number, a symbol, or another value (a string, a BigInt, an object), which is given by the
  number it converts to. The other options are taken at their documented types, with their
  defaults filled in: \<^verbatim>\<open>delay\<close> is a number, \<^verbatim>\<open>exponentialBackoff\<close> a boolean,
  \<^verbatim>\<open>shouldRetry\<close> a function that returns a boolean, and \<^verbatim>\<open>onRetry\<close> is \<^verbatim>\<open>null\<close> or a
  function, which may throw.
\<close>

datatype js_number =
    Fin rat
  | NaN
  | PosInfinity
  | NegInfinity

datatype js_value =
    Undefined
  | Null
  | Boolean bool
  | Number js_number
  | Symbol
  | NonNumber js_number

text \<open>
  \<^verbatim>\<open>const { maxAttempts = 3 } = options\<close>: the default replaces \<^verbatim>\<open>undefined\<close> only.
\<close>

definition or_default :: "js_value \<Rightarrow> js_value \<Rightarrow> js_value" where
  "or_default v d = (case v of Undefined \<Rightarrow> d | _ \<Rightarrow> v)"

text \<open>
  \<^verbatim>\<open>attempt <= maxAttempts\<close>, for the integer \<^verbatim>\<open>attempt\<close>: the right operand is converted to
  a number, which throws a \<^verbatim>\<open>TypeError\<close> for a symbol (\<open>None\<close>); a comparison with \<^verbatim>\<open>NaN\<close>
  is false.
\<close>

definition to_number :: "js_value \<Rightarrow> js_number option" where
  "to_number v =
     (case v of
        Undefined \<Rightarrow> Some NaN
      | Null \<Rightarrow> Some (Fin 0)
      | Boolean b \<Rightarrow> Some (Fin (if b then 1 else 0))
      | Number n \<Rightarrow> Some n
      | Symbol \<Rightarrow> None
      | NonNumber n \<Rightarrow> Some n)"

definition int_le :: "int \<Rightarrow> js_number \<Rightarrow> bool" where
  "int_le a n =
     (case n of
        Fin q \<Rightarrow> of_int a \<le> q
      | NaN \<Rightarrow> False
      | PosInfinity \<Rightarrow> True
      | NegInfinity \<Rightarrow> False)"

text \<open>\<^verbatim>\<open>attempt === maxAttempts\<close>: true only of a number, and of the same one.\<close>

definition strict_eq :: "int \<Rightarrow> js_value \<Rightarrow> bool" where
  "strict_eq a v = (case v of Number (Fin q) \<Rightarrow> q = of_int a | _ \<Rightarrow> False)"

text \<open>\<^verbatim>\<open>delay * Math.pow(2, attempt - 1)\<close>, for \<open>1 \<le> attempt\<close>.\<close>

definition times_pow2 :: "js_number \<Rightarrow> nat \<Rightarrow> js_number" where
  "times_pow2 d k = (case d of Fin q \<Rightarrow> Fin (q * 2 ^ k) | _ \<Rightarrow> d)"

text \<open>
  The callback \<^verbatim>\<open>fn\<close> is modelled by the outcome of its call at each attempt number
  (\<open>Inl e\<close>: the call throws \<open>e\<close>; \<open>Inr v\<close>: it resolves to \<open>v\<close>); \<open>nullish e\<close> says that the
  thrown value \<open>e\<close> is \<^verbatim>\<open>null\<close> or \<^verbatim>\<open>undefined\<close>, so that reading \<^verbatim>\<open>e.message\<close> throws a
  \<^verbatim>\<open>TypeError\<close>. The model returns the trace of observable events (calls of \<^verbatim>\<open>fn\<close>, calls
  of \<^verbatim>\<open>onRetry\<close>, timer waits) together with the outcome of \<^verbatim>\<open>retry\<close> itself: it throws
  (\<open>Inl\<close>), or it resolves to a value of \<^verbatim>\<open>fn\<close> (\<open>Inr (Some v)\<close>) or, falling off the end of
  the loop, to \<^verbatim>\<open>undefined\<close> (\<open>Inr None\<close>). The loop need not end (\<^verbatim>\<open>maxAttempts\<close> may be
  \<^verbatim>\<open>Infinity\<close>): a run that never ends is \<open>None\<close>.
\<close>

datatype 'e retry_error =
    Thrown 'e
  | AllAttemptsFailed int 'e
  | ConversionError
  | MessageError

datatype retry_event =
    Call int
  | OnRetry int js_number
  | Wait js_number

record 'e retry_options =
  maxAttempts :: js_value
  delay :: js_number
  exponentialBackoff :: bool
  onRetry :: "(int \<Rightarrow> js_number \<Rightarrow> 'e \<Rightarrow> 'e option) option"
  shouldRetry :: "'e \<Rightarrow> bool"

definition nextDelay :: "'e retry_options \<Rightarrow> int \<Rightarrow> js_number" where
  "nextDelay opts attempt =
     (if exponentialBackoff opts then times_pow2 (delay opts) (nat (attempt - 1)) else delay opts)"

definition attempts_bound :: "'e retry_options \<Rightarrow> js_value" where
  "attempts_bound opts = or_default (maxAttempts opts) (Number (Fin 3))"

partial_function (option) retry_from ::
  "('e \<Rightarrow> bool) \<Rightarrow> (int \<Rightarrow> 'e + 'r) \<Rightarrow> 'e retry_options \<Rightarrow> int \<Rightarrow>
   (retry_event list \<times> ('e retry_error + 'r option)) option"
where
  "retry_from nullish fn opts attempt =
     (case to_number (attempts_bound opts) of
        None \<Rightarrow> Some ([], Inl ConversionError)
      | Some n \<Rightarrow>
          if int_le attempt n then
            (case fn attempt of
               Inr v \<Rightarrow> Some ([Call attempt], Inr (Some v))
             | Inl e \<Rightarrow>
                 if \<not> shouldRetry opts e then Some ([Call attempt], Inl (Thrown e))
                 else if strict_eq attempt (attempts_bound opts) then
                   Some ([Call attempt],
                         Inl (if nullish e then MessageError else AllAttemptsFailed attempt e))
                 else
                   (case onRetry opts of
                      None \<Rightarrow>
                        Option.bind (retry_from nullish fn opts (attempt + 1))
                          (\<lambda>(tr, r). Some (Call attempt # Wait (nextDelay opts attempt) # tr, r))
                    | Some cb \<Rightarrow>
                        (case cb attempt (nextDelay opts attempt) e of
                           Some e' \<Rightarrow>
                             Some ([Call attempt, OnRetry attempt (nextDelay opts attempt)],
                                   Inl (Thrown e'))
                         | None \<Rightarrow>
                             Option.bind (retry_from nullish fn opts (attempt + 1))
                               (\<lambda>(tr, r). Some (Call attempt # OnRetry attempt (nextDelay opts attempt)
                                                  # Wait (nextDelay opts attempt) # tr, r)))))
          else Some ([], Inr None))"

declare retry_from.simps [code]

definition retry ::
  "('e \<Rightarrow> bool) \<Rightarrow> (int \<Rightarrow> 'e + 'r) \<Rightarrow> 'e retry_options \<Rightarrow>
   (retry_event list \<times> ('e retry_error + 'r option)) option"
where
  "retry nullish fn opts = retry_from nullish fn opts 1"

fun calls :: "retry_event list \<Rightarrow> int list" where
  "calls [] = []"
| "calls (Call k # es) = k # calls es"
| "calls (_ # es) = calls es"

fun waits :: "retry_event list \<Rightarrow> js_number list" where
  "waits [] = []"
| "waits (Wait d # es) = d # waits es"
| "waits (_ # es) = waits es"

definition always_timeout :: "int \<Rightarrow> string + unit" where
  "always_timeout attempt = Inl ''timeout''"

definition plain_options :: "js_value \<Rightarrow> string retry_options" where
  "plain_options v =
     \<lparr>maxAttempts = v, delay = Fin 1000, exponentialBackoff = True, onRetry = None,
      shouldRetry = (\<lambda>e. True)\<rparr>"


section \<open>JavaScript values\<close>

text \<open>
  Option objects are plain JavaScript objects. A value is one of the JSON-like shapes
  below; an object is the list of its own properties in insertion order (its keys are
  distinct, as in any object). Numbers are modelled as integers (no \<^verbatim>\<open>NaN\<close>, no
  fractions).
\<close>

datatype jsval =
    JUndefined
  | JNull
  | JBool bool
  | JNum int
  | JStr string
  | JArr "jsval list"
  | JObj "(string \<times> jsval) list"

type_synonym jsobject = "(string \<times> jsval) list"

text \<open>Truthiness, as used by \<^verbatim>\<open>if\<close>, \<^verbatim>\<open>&&\<close>, \<^verbatim>\<open>||\<close> and \<^verbatim>\<open>!\<close>.\<close>

fun truthy :: "jsval \<Rightarrow> bool" where
  "truthy JUndefined = False"
| "truthy JNull = False"
| "truthy (JBool b) = b"
| "truthy (JNum n) = (n \<noteq> 0)"
| "truthy (JStr s) = (s \<noteq> [])"
| "truthy (JArr _) = True"
| "truthy (JObj _) = True"

text \<open>\<^verbatim>\<open>a || b\<close>: the left operand when it is truthy, the right one otherwise.\<close>

definition js_or :: "jsval \<Rightarrow> jsval \<Rightarrow> jsval" where
  "js_or a b = (if truthy a then a else b)"

text \<open>\<^verbatim>\<open>obj.key\<close> on an object: the property's value, \<^verbatim>\<open>undefined\<close> when it is absent.\<close>

definition js_get :: "jsobject \<Rightarrow> string \<Rightarrow> jsval" where
  "js_get obj key = (case map_of obj key of None \<Rightarrow> JUndefined | Some v \<Rightarrow> v)"

section \<open>utils/cache.js\<close>

text \<open>
  \<^verbatim>\<open>generateCacheKey(url, inputFieldSelector, payload, options)\<close>. The two library
  functions it calls, \<^verbatim>\<open>JSON.stringify\<close> and the MD5 hex digest of \<^verbatim>\<open>crypto\<close>, are
  parameters of the model (\<open>stringify\<close> and \<open>md5\<close>).
\<close>

definition relevantOptions :: "jsobject \<Rightarrow> jsval" where
  "relevantOptions options = JObj
     [(''browser'', js_or (js_get options ''browser'') (JStr ''chromium'')),
      (''verifyExecution'', js_or (js_get options ''verifyExecution'') (JBool False)),
      (''submitSelector'', js_or (js_get options ''submitSelector'') JNull)]"

definition cacheConfig :: "string \<Rightarrow> string \<Rightarrow> string \<Rightarrow> jsobject \<Rightarrow> jsval" where
  "cacheConfig url inputFieldSelector payload options = JObj
     [(''url'', JStr url),
      (''inputFieldSelector'', JStr inputFieldSelector),
      (''payload'', JStr payload),
      (''options'', relevantOptions options)]"

definition generateCacheKey ::
  "(jsval \<Rightarrow> string) \<Rightarrow> (string \<Rightarrow> string) \<Rightarrow> string \<Rightarrow> string \<Rightarrow> string \<Rightarrow> jsobject \<Rightarrow> string"
where
  "generateCacheKey stringify md5 url inputFieldSelector payload options =
     md5 (stringify (cacheConfig url inputFieldSelector payload options))"

section \<open>xssValidator.js: \<^verbatim>\<open>detectXSSParallel\<close>\<close>

text \<open>
  \<^verbatim>\<open>detectXSSParallel(testConfigs, globalOptions)\<close> runs \<^verbatim>\<open>detectXSS\<close> over a list of test
  configurations, \<^verbatim>\<open>concurrency\<close> at a time. The call of \<^verbatim>\<open>detectXSS\<close> for the test with
  global index \<open>k\<close> (together with the preparation of its options) is the parameter
  \<open>detectXSS k config\<close>: \<open>Inr rs\<close> when it resolves with the result list \<open>rs\<close>, \<open>Inl msg\<close>
  when it rejects with message \<open>msg\<close>. Each batch is started with \<^verbatim>\<open>batch.map(async ...)\<close>
  and awaited as a whole with \<^verbatim>\<open>Promise.all\<close>; besides the returned array the model
  records, per batch, the global indices of the tests whose outcome \<^verbatim>\<open>Promise.all\<close> delivered
  (\<open>settled\<close>). The loop counter and \<^verbatim>\<open>concurrency\<close> are
  integers; with \<^verbatim>\<open>concurrency\<close> \<open>\<le> 0\<close> the source loop never ends, which the model
  renders as \<open>None\<close>.
\<close>

text \<open>Array.prototype.slice(start, end) with integer arguments.\<close>

definition js_slice :: "'a list \<Rightarrow> int \<Rightarrow> int \<Rightarrow> 'a list" where
  "js_slice xs start end' =
     (let len = int (length xs);
          k = (if start < 0 then max (len + start) 0 else min start len);
          final = (if end' < 0 then max (len + end') 0 else min end' len)
      in take (nat (final - k)) (drop (nat k) xs))"

record parallel_options =
  concurrency :: int
  stopOnFirstVulnerability :: bool

datatype 'r job_result = JobResult (results_of: "'r list") (error_of: "string option") (testInfo_index: int)

text \<open>The body of the \<^verbatim>\<open>batch.map\<close> callback, with its \<^verbatim>\<open>try\<close>/\<^verbatim>\<open>catch\<close>.\<close>

definition run_test ::
  "(int \<Rightarrow> 'c \<Rightarrow> string + 'r list) \<Rightarrow> parallel_options \<Rightarrow> int \<Rightarrow> 'c \<Rightarrow> 'r job_result \<times> bool"
where
  "run_test detectXSS opts k config =
     (case detectXSS k config of
        Inr rs \<Rightarrow>
          if stopOnFirstVulnerability opts \<and> length rs > 0
          then (JobResult rs None k, True)
          else (JobResult rs None k, False)
      | Inl msg \<Rightarrow> (JobResult [] (Some msg) k, False))"

text \<open>The \<^verbatim>\<open>for (const { result, stopTesting } of batchResults)\<close> loop with its \<^verbatim>\<open>break\<close>.\<close>

fun push_until_stop :: "('a \<times> bool) list \<Rightarrow> 'a list" where
  "push_until_stop [] = []"
| "push_until_stop ((result, stopTesting) # rest) =
     result # (if stopTesting then [] else push_until_stop rest)"

definition run_batch ::
  "(int \<Rightarrow> 'c \<Rightarrow> string + 'r list) \<Rightarrow> parallel_options \<Rightarrow> int \<Rightarrow> 'c list \<Rightarrow> ('r job_result \<times> bool) list"
where
  "run_batch detectXSS opts i batch =
     map (\<lambda>(index, config). run_test detectXSS opts (i + int index) config) (enumerate 0 batch)"

partial_function (option) batch_loop ::
  "(int \<Rightarrow> 'c \<Rightarrow> string + 'r list) \<Rightarrow> parallel_options \<Rightarrow> 'c list \<Rightarrow> int \<Rightarrow>
   'r job_result list \<Rightarrow> int list list \<Rightarrow> ('r job_result list \<times> int list list) option"
where
  "batch_loop detectXSS opts testConfigs i results settled =
     (if i < int (length testConfigs) then
        (let batch = js_slice testConfigs i (i + concurrency opts);
             batchResults = run_batch detectXSS opts i batch;
             results' = results @ push_until_stop batchResults;
             settled' = settled @ [map (\<lambda>(result, stopTesting). testInfo_index result) batchResults]
         in if list_ex snd batchResults then Some (results', settled')
            else batch_loop detectXSS opts testConfigs (i + concurrency opts) results' settled')
      else Some (results, settled))"

declare batch_loop.simps [code]

definition detectXSSParallel ::
  "(int \<Rightarrow> 'c \<Rightarrow> string + 'r list) \<Rightarrow> parallel_options \<Rightarrow> 'c list \<Rightarrow>
   (string + 'r job_result list \<times> int list list) option"
where
  "detectXSSParallel detectXSS opts testConfigs =
     (if length testConfigs = 0
      then Some (Inl ''testConfigs must be a non-empty array of test configurations'')
      else map_option Inr (batch_loop detectXSS opts testConfigs 0 [] []))"


text \<open>
  Notions used to state what the scheduler does: the contiguous batches of a given size,
  the batches up to and including the first one that satisfies a predicate, a test that
  resolves with at least one result, and the outcomes of a batch given by its indices.
\<close>

function chunks :: "nat \<Rightarrow> 'a list \<Rightarrow> 'a list list" where
  "chunks c xs = (if c = 0 \<or> xs = [] then [] else take c xs # chunks c (drop c xs))"
  by pat_completeness auto
termination
  by (relation "measure (\<lambda>(c, xs). length xs)") auto

fun upto_first_hit :: "('a \<Rightarrow> bool) \<Rightarrow> 'a list \<Rightarrow> 'a list" where
  "upto_first_hit P [] = []"
| "upto_first_hit P (x # xs) = x # (if P x then [] else upto_first_hit P xs)"

definition vulnerable :: "(int \<Rightarrow> 'c \<Rightarrow> string + 'r list) \<Rightarrow> 'c list \<Rightarrow> int \<Rightarrow> bool" where
  "vulnerable detectXSS testConfigs k =
     (0 \<le> k \<and> k < int (length testConfigs) \<and>
      (case detectXSS k (testConfigs ! nat k) of Inr rs \<Rightarrow> rs \<noteq> [] | Inl _ \<Rightarrow> False))"

definition batch_vulnerable :: "(int \<Rightarrow> 'c \<Rightarrow> string + 'r list) \<Rightarrow> 'c list \<Rightarrow> int list \<Rightarrow> bool" where
  "batch_vulnerable detectXSS testConfigs b = list_ex (vulnerable detectXSS testConfigs) b"

definition expected_batches_from ::
  "(int \<Rightarrow> 'c \<Rightarrow> string + 'r list) \<Rightarrow> parallel_options \<Rightarrow> 'c list \<Rightarrow> nat \<Rightarrow> int list list"
where
  "expected_batches_from detectXSS opts testConfigs i =
     (let all_batches = chunks (nat (concurrency opts)) (map int [i ..< length testConfigs])
      in if stopOnFirstVulnerability opts
         then upto_first_hit (batch_vulnerable detectXSS testConfigs) all_batches
         else all_batches)"

definition batch_outcomes ::
  "(int \<Rightarrow> 'c \<Rightarrow> string + 'r list) \<Rightarrow> parallel_options \<Rightarrow> 'c list \<Rightarrow> int list \<Rightarrow> ('r job_result \<times> bool) list"
where
  "batch_outcomes detectXSS opts testConfigs b =
     map (\<lambda>k. run_test detectXSS opts k (testConfigs ! nat k)) b"

declare chunks.simps [simp del]

section \<open>payloads/smartSelection.js: the diversity pass of \<^verbatim>\<open>selectSmartPayloads\<close>\<close>

text \<open>
  Steps 1 to 6 of \<^verbatim>\<open>selectSmartPayloads\<close> build \<^verbatim>\<open>contextPayloads\<close>, the de-duplicated and
  ranked list of candidates (they read the page, the categorized corpus and the
  effectiveness store). The model starts from that list: step 7 (\<^verbatim>\<open>ensureDiversity\<close>), the
  top-up from other contexts, and the final \<^verbatim>\<open>slice(0, limit)\<close>. \<^verbatim>\<open>generatePayloads\<close> and
  \<^verbatim>\<open>CONTEXT_TYPES\<close> belong to the module \<^verbatim>\<open>./generator\<close> and are parameters. \<^verbatim>\<open>limit\<close> is an
  integer.
\<close>

text \<open>\<^verbatim>\<open>s.includes(sub)\<close>: \<open>sub\<close> occurs in \<open>s\<close> as a contiguous substring.\<close>

fun str_includes :: "string \<Rightarrow> string \<Rightarrow> bool" where
  "str_includes [] sub = (sub = [])"
| "str_includes (c # cs) sub = (take (length sub) (c # cs) = sub \<or> str_includes cs sub)"

text \<open>The \<^verbatim>\<open>categories\<close> object of \<^verbatim>\<open>ensureDiversity\<close>; field \<open>c_x\<close> is \<^verbatim>\<open>categories.x\<close>.\<close>

record categories =
  c_script :: bool
  c_img :: bool
  c_svg :: bool
  c_iframe :: bool
  c_event :: bool
  c_attribute :: bool
  c_url :: bool

text \<open>First pass of \<^verbatim>\<open>ensureDiversity\<close>: one payload for each category not yet served.\<close>

fun first_pass :: "int \<Rightarrow> string list \<Rightarrow> string list \<times> categories \<Rightarrow> string list \<times> categories" where
  "first_pass limit [] (result, categories) = (result, categories)"
| "first_pass limit (payload # payloads) (result, categories) =
     (if int (length result) \<ge> limit then (result, categories)
      else if str_includes payload ''<script'' \<and> \<not> c_script categories then
        first_pass limit payloads (result @ [payload], categories\<lparr>c_script := True\<rparr>)
      else if str_includes payload ''<img'' \<and> \<not> c_img categories then
        first_pass limit payloads (result @ [payload], categories\<lparr>c_img := True\<rparr>)
      else if str_includes payload ''<svg'' \<and> \<not> c_svg categories then
        first_pass limit payloads (result @ [payload], categories\<lparr>c_svg := True\<rparr>)
      else if str_includes payload ''<iframe'' \<and> \<not> c_iframe categories then
        first_pass limit payloads (result @ [payload], categories\<lparr>c_iframe := True\<rparr>)
      else if (str_includes payload ''onload'' \<or> str_includes payload ''onerror'' \<or>
               str_includes payload ''onclick'' \<or> str_includes payload ''onmouseover'') \<and>
              \<not> c_event categories then
        first_pass limit payloads (result @ [payload], categories\<lparr>c_event := True\<rparr>)
      else if (str_includes payload [CHR 0x22] \<or> str_includes payload [CHR 0x27]) \<and>
              \<not> c_attribute categories then
        first_pass limit payloads (result @ [payload], categories\<lparr>c_attribute := True\<rparr>)
      else if (str_includes payload ''javascript:'' \<or> str_includes payload ''data:'') \<and>
              \<not> c_url categories then
        first_pass limit payloads (result @ [payload], categories\<lparr>c_url := True\<rparr>)
      else first_pass limit payloads (result, categories))"

text \<open>
  Second pass: the remaining payloads, in order, up to the limit. The loop that adds the
  top-up payloads has the same body and is this function too.
\<close>

fun second_pass :: "int \<Rightarrow> string list \<Rightarrow> string list \<Rightarrow> string list" where
  "second_pass limit [] result = result"
| "second_pass limit (payload # payloads) result =
     (if int (length result) \<ge> limit then result
      else if payload \<notin> set result then second_pass limit payloads (result @ [payload])
      else second_pass limit payloads result)"

definition no_categories :: categories where
  "no_categories = \<lparr>c_script = False, c_img = False, c_svg = False, c_iframe = False, c_event = False,
                    c_attribute = False, c_url = False\<rparr>"

definition ensureDiversity :: "string list \<Rightarrow> int \<Rightarrow> string list" where
  "ensureDiversity payloads limit =
     second_pass limit payloads (fst (first_pass limit payloads ([], no_categories)))"

fun gather_additional ::
  "('ctx \<Rightarrow> string list) \<Rightarrow> int \<Rightarrow> nat \<Rightarrow> 'ctx list \<Rightarrow> string list \<Rightarrow> string list" where
  "gather_additional generatePayloads limit n [] additionalPayloads = additionalPayloads"
| "gather_additional generatePayloads limit n (otherContext # otherContexts) additionalPayloads =
     (if int (n + length additionalPayloads) \<ge> limit then additionalPayloads
      else gather_additional generatePayloads limit n otherContexts
             (additionalPayloads @ generatePayloads otherContext))"

definition selectSmartPayloads_diversify ::
  "('ctx \<Rightarrow> string list) \<Rightarrow> 'ctx list \<Rightarrow> 'ctx \<Rightarrow> string list \<Rightarrow> int \<Rightarrow> string list" where
  "selectSmartPayloads_diversify generatePayloads CONTEXT_TYPES contextType contextPayloads limit =
     (let diversePayloads = ensureDiversity contextPayloads limit;
          diversePayloads =
            (if int (length diversePayloads) < limit then
               (let otherContexts = filter (\<lambda>c. c \<noteq> contextType) CONTEXT_TYPES;
                    additionalPayloads =
                      gather_additional generatePayloads limit (length diversePayloads) otherContexts []
                in second_pass limit additionalPayloads diversePayloads)
             else diversePayloads)
      in js_slice diversePayloads 0 limit)"


text \<open>
  Notions used to state the diversity guarantee: the seven buckets with their predicates,
  the buckets a list of payloads covers, and the representatives the first pass picks.
\<close>

datatype bucket = Script | Img | Svg | Iframe | Event | Attribute | Url

fun bucket_matches :: "bucket \<Rightarrow> string \<Rightarrow> bool" where
  "bucket_matches Script p = str_includes p ''<script''"
| "bucket_matches Img p = str_includes p ''<img''"
| "bucket_matches Svg p = str_includes p ''<svg''"
| "bucket_matches Iframe p = str_includes p ''<iframe''"
| "bucket_matches Event p =
     (str_includes p ''onload'' \<or> str_includes p ''onerror'' \<or>
      str_includes p ''onclick'' \<or> str_includes p ''onmouseover'')"
| "bucket_matches Attribute p = (str_includes p [CHR 0x22] \<or> str_includes p [CHR 0x27])"
| "bucket_matches Url p = (str_includes p ''javascript:'' \<or> str_includes p ''data:'')"

definition all_buckets :: "bucket list" where
  "all_buckets = [Script, Img, Svg, Iframe, Event, Attribute, Url]"

definition buckets_covered :: "string list \<Rightarrow> bucket list" where
  "buckets_covered ps = filter (\<lambda>b. list_ex (bucket_matches b) ps) all_buckets"

fun flag :: "bucket \<Rightarrow> categories \<Rightarrow> bool" where
  "flag Script c = c_script c"
| "flag Img c = c_img c"
| "flag Svg c = c_svg c"
| "flag Iframe c = c_iframe c"
| "flag Event c = c_event c"
| "flag Attribute c = c_attribute c"
| "flag Url c = c_url c"

fun set_flag :: "bucket \<Rightarrow> categories \<Rightarrow> categories" where
  "set_flag Script c = c\<lparr>c_script := True\<rparr>"
| "set_flag Img c = c\<lparr>c_img := True\<rparr>"
| "set_flag Svg c = c\<lparr>c_svg := True\<rparr>"
| "set_flag Iframe c = c\<lparr>c_iframe := True\<rparr>"
| "set_flag Event c = c\<lparr>c_event := True\<rparr>"
| "set_flag Attribute c = c\<lparr>c_attribute := True\<rparr>"
| "set_flag Url c = c\<lparr>c_url := True\<rparr>"

definition classify :: "string \<Rightarrow> categories \<Rightarrow> bucket option" where
  "classify p c = List.find (\<lambda>b. bucket_matches b p \<and> \<not> flag b c) all_buckets"

definition representatives :: "string list \<Rightarrow> int \<Rightarrow> string list" where
  "representatives payloads limit = fst (first_pass limit payloads ([], no_categories))"

definition no_payloads :: "string \<Rightarrow> string list" where
  "no_payloads context = []"

definition seven_payloads :: "string list" where
  "seven_payloads =
     [''<script>alert(1)</script>'', ''<img src=x>'', ''<svg>'', ''<iframe src=x>'',
      ''x onerror=alert(1)'', [CHR 0x22, CHR ''>''], ''javascript:alert(1)'']"

definition count_flags :: "categories \<Rightarrow> nat" where
  "count_flags c = length (filter (\<lambda>b. flag b c) all_buckets)"

declare first_pass.simps(2) [simp del]

definition first_pass_ok ::
  "int \<Rightarrow> string list \<Rightarrow> string list \<Rightarrow> string list \<times> categories \<Rightarrow> bool" where
  "first_pass_ok limit ps res out =
     ((\<forall>b. flag b (snd out) \<longrightarrow> (\<exists>p \<in> set (fst out). bucket_matches b p))
      \<and> length (fst out) = count_flags (snd out)
      \<and> (\<exists>ys. fst out = res @ ys)
      \<and> (\<forall>b. (\<exists>p \<in> set ps. bucket_matches b p) \<longrightarrow>
             (\<exists>p \<in> set (fst out). bucket_matches b p) \<or> limit \<le> int (length (fst out)))
      \<and> int (length (fst out)) \<le> max (int (length res)) limit)"


text \<open>
  The payloads of a list that are not among those already taken, each once, in the order
  of their first occurrence.
\<close>

definition firsts :: "'a list \<Rightarrow> 'a list" where
  "firsts xs = rev (remdups (rev xs))"

definition fresh :: "string list \<Rightarrow> string list \<Rightarrow> string list" where
  "fresh taken ps = firsts (filter (\<lambda>p. p \<notin> set taken) ps)"

text \<open>
  The ranked order of the candidates after the diversity pass: the representatives, then
  the other candidates as they come.
\<close>

definition ranked :: "string list \<Rightarrow> int \<Rightarrow> string list" where
  "ranked payloads limit =
     representatives payloads limit @ fresh (representatives payloads limit) payloads"

text \<open>
  The top-up: the payloads of the other contexts, context after context, one more context
  as long as slots are missing.
\<close>

fun contexts_used :: "('ctx \<Rightarrow> string list) \<Rightarrow> int \<Rightarrow> 'ctx list \<Rightarrow> 'ctx list" where
  "contexts_used generatePayloads missing [] = []"
| "contexts_used generatePayloads missing (c # cs) =
     (if missing \<le> 0 then []
      else c # contexts_used generatePayloads (missing - int (length (generatePayloads c))) cs)"

definition top_up :: "('ctx \<Rightarrow> string list) \<Rightarrow> 'ctx list \<Rightarrow> 'ctx \<Rightarrow> int \<Rightarrow> string list" where
  "top_up generatePayloads CONTEXT_TYPES contextType missing =
     concat (map generatePayloads
               (contexts_used generatePayloads missing
                  (filter (\<lambda>c. c \<noteq> contextType) CONTEXT_TYPES)))"

text \<open>Payload generators for the examples.\<close>

definition js_context_payloads :: "string \<Rightarrow> string list" where
  "js_context_payloads context = (if context = ''js'' then [''alert(1)'', ''<svg>''] else [])"

section \<open>utils/session.js: \<^verbatim>\<open>releasePage\<close>\<close>

text \<open>
  \<^verbatim>\<open>getSession\<close> hands out a page together with a closure \<^verbatim>\<open>releasePage\<close>. The closure is
  an \<^verbatim>\<open>async\<close> function: it runs until its next \<^verbatim>\<open>await\<close>, and is resumed when the awaited
  page operation has settled; between the two, other pending calls may be resumed. A
  pending call is therefore a program point (\<open>release_pc\<close>), and \<open>release_resume\<close> is the
  code between two awaits. The registry \<^verbatim>\<open>activeSessions\<close> maps a session id to a session
  object (a reference); \<^verbatim>\<open>currentSession\<close> is the reference read when the call starts. The
  outcome of each awaited page operation is given per page by \<open>io\<close> (\<open>close_again_ok\<close> for
  the second \<^verbatim>\<open>page.close()\<close>, in the outer \<^verbatim>\<open>catch\<close>). Both copies of the closure in
  \<^verbatim>\<open>getSession\<close> have the same text.
\<close>

type_synonym page = nat
type_synonym session_ref = nat

record page_io =
  probe_ok :: bool
  goto_ok :: bool
  clear_ok :: bool
  close_ok :: bool
  close_again_ok :: bool

datatype release_pc =
    Called
  | AwaitProbe session_ref
  | AwaitGoto session_ref
  | AwaitClear session_ref
  | AwaitClose
  | AwaitCloseAgain
  | Finished

datatype page_event =
    Probed page
  | Navigated page
  | Cleared page
  | Pushed page
  | CloseCalled page
  | Closed page

record release_state =
  activeSessions :: "string \<rightharpoonup> session_ref"
  pagePool :: "session_ref \<Rightarrow> page list"
  pending :: "(string \<times> page \<times> release_pc) list"
  page_events :: "page_event list"

definition MAX_PAGES_PER_SESSION :: nat where
  "MAX_PAGES_PER_SESSION = 5"

definition release_resume ::
  "(page \<Rightarrow> page_io) \<Rightarrow> release_state \<Rightarrow> string \<Rightarrow> page \<Rightarrow> release_pc \<Rightarrow> release_state \<times> release_pc"
where
  "release_resume io st sessionId page pc =
     (case pc of
        Called \<Rightarrow>
          (case activeSessions st sessionId of
             None \<Rightarrow> (st\<lparr>page_events := page_events st @ [CloseCalled page]\<rparr>, AwaitClose)
           | Some currentSession \<Rightarrow> (st, AwaitProbe currentSession))
      | AwaitProbe currentSession \<Rightarrow>
          if probe_ok (io page) \<and> length (pagePool st currentSession) < MAX_PAGES_PER_SESSION
          then (st\<lparr>page_events := page_events st @ [Probed page]\<rparr>, AwaitGoto currentSession)
          else (st\<lparr>page_events := page_events st @ [Probed page, CloseCalled page]\<rparr>, AwaitClose)
      | AwaitGoto currentSession \<Rightarrow>
          if goto_ok (io page)
          then (st\<lparr>page_events := page_events st @ [Navigated page]\<rparr>, AwaitClear currentSession)
          else (st\<lparr>page_events := page_events st @ [CloseCalled page]\<rparr>, AwaitClose)
      | AwaitClear currentSession \<Rightarrow>
          if clear_ok (io page)
          then (st\<lparr>pagePool := (pagePool st)(currentSession := pagePool st currentSession @ [page]),
                   page_events := page_events st @ [Cleared page, Pushed page]\<rparr>, Finished)
          else (st\<lparr>page_events := page_events st @ [CloseCalled page]\<rparr>, AwaitClose)
      | AwaitClose \<Rightarrow>
          if close_ok (io page)
          then (st\<lparr>page_events := page_events st @ [Closed page]\<rparr>, Finished)
          else (st\<lparr>page_events := page_events st @ [CloseCalled page]\<rparr>, AwaitCloseAgain)
      | AwaitCloseAgain \<Rightarrow>
          if close_again_ok (io page)
          then (st\<lparr>page_events := page_events st @ [Closed page]\<rparr>, Finished)
          else (st, Finished)
      | Finished \<Rightarrow> (st, Finished))"

text \<open>Resuming the \<open>i\<close>-th pending call, and a schedule of such resumptions.\<close>

definition release_step :: "(page \<Rightarrow> page_io) \<Rightarrow> release_state \<Rightarrow> nat \<Rightarrow> release_state" where
  "release_step io st i =
     (if i < length (pending st) then
        (case pending st ! i of
           (sessionId, page, pc) \<Rightarrow>
             (case release_resume io st sessionId page pc of
                (st', pc') \<Rightarrow> st'\<lparr>pending := (pending st')[i := (sessionId, page, pc')]\<rparr>))
      else st)"

definition release_run :: "(page \<Rightarrow> page_io) \<Rightarrow> release_state \<Rightarrow> nat list \<Rightarrow> release_state" where
  "release_run io st schedule = foldl (release_step io) st schedule"

text \<open>
  Calling \<^verbatim>\<open>releasePage()\<close> adds a pending call. \<open>releasePage\<close> is a call that is not
  overlapped by another: it is resumed until it has finished (at most six times).
\<close>

definition call_releasePage :: "release_state \<Rightarrow> string \<Rightarrow> page \<Rightarrow> release_state" where
  "call_releasePage st sessionId page = st\<lparr>pending := pending st @ [(sessionId, page, Called)]\<rparr>"

definition releasePage :: "(page \<Rightarrow> page_io) \<Rightarrow> release_state \<Rightarrow> string \<Rightarrow> page \<Rightarrow> release_state" where
  "releasePage io st sessionId page =
     release_run io (call_releasePage st sessionId page) (replicate 6 (length (pending st)))"

text \<open>
  An overlapping use: six pages of session \<^verbatim>\<open>s\<close>, all usable, whose six \<^verbatim>\<open>releasePage()\<close>
  calls have been started together (as by \<^verbatim>\<open>Promise.all\<close>) and are resumed in turn.
\<close>

definition healthy :: "page \<Rightarrow> page_io" where
  "healthy page = \<lparr>probe_ok = True, goto_ok = True, clear_ok = True, close_ok = True, close_again_ok = True\<rparr>"

definition six_pending :: release_state where
  "six_pending =
     \<lparr>activeSessions = [''s'' \<mapsto> 0],
      pagePool = (\<lambda>ref. []),
      pending = map (\<lambda>page. (''s'', page, Called)) [1, 2, 3, 4, 5, 6],
      page_events = []\<rparr>"

definition round_robin :: "nat list" where
  "round_robin = concat (replicate 4 [0, 1, 2, 3, 4, 5])"

text \<open>The page events of one call, and the events of closing a page.\<close>

definition new_events :: "release_state \<Rightarrow> release_state \<Rightarrow> page_event list" where
  "new_events st st' = drop (length (page_events st)) (page_events st')"

definition close_tail :: "(page \<Rightarrow> page_io) \<Rightarrow> page \<Rightarrow> page_event list" where
  "close_tail io page =
     (if close_ok (io page) then [Closed page]
      else if close_again_ok (io page) then [CloseCalled page, Closed page]
      else [CloseCalled page])"


text \<open>Resuming one call \<open>k\<close> times in a row.\<close>

fun release_resume_n ::
  "(page \<Rightarrow> page_io) \<Rightarrow> string \<Rightarrow> page \<Rightarrow> nat \<Rightarrow> release_state \<Rightarrow> release_pc \<Rightarrow> release_state \<times> release_pc"
where
  "release_resume_n io sessionId page 0 st pc = (st, pc)"
| "release_resume_n io sessionId page (Suc k) st pc =
     (case release_resume io st sessionId page pc of (st', pc') \<Rightarrow> release_resume_n io sessionId page k st' pc')"


section \<open>xssValidator.js: \<^verbatim>\<open>detectXSS\<close>\<close>

text \<open>
  \<^verbatim>\<open>detectXSS(url, inputFieldSelector, customPayloads, options)\<close> acquires a browser, a
  context and a page, runs the payload loop inside \<^verbatim>\<open>try\<close>/\<^verbatim>\<open>catch\<close>/\<^verbatim>\<open>finally\<close>, writes
  the reports and returns \<^verbatim>\<open>{ results, reportPaths }\<close>. A call resolves (\<open>Inr\<close>) or rejects
  with the error thrown (\<open>Inl\<close>). The cache store, which the source keeps as one file per
  cache key, is a map from keys to the entries the program writes; it is passed in and
  returned.
\<close>

datatype js_error =
    ReferenceError string
  | TypeError string
  | Error string

text \<open>\<^verbatim>\<open>v.key\<close> on any value: a property of an object, \<^verbatim>\<open>undefined\<close> on another value.\<close>

definition js_field :: "jsval \<Rightarrow> string \<Rightarrow> jsval" where
  "js_field v key = (case v of JObj obj \<Rightarrow> js_get obj key | _ \<Rightarrow> JUndefined)"

text \<open>\<^verbatim>\<open>options.a && options.a.b\<close>, read as a condition.\<close>

definition opt2 :: "jsobject \<Rightarrow> string \<Rightarrow> string \<Rightarrow> bool" where
  "opt2 options a b = (truthy (js_get options a) \<and> truthy (js_field (js_get options a) b))"

record TestResult =
  r_payload :: string
  r_reflected :: bool
  r_executed :: bool
  r_url :: string
  r_timestamp :: string
  r_fromCache :: bool

record CachedResult =
  cr_detected :: bool
  cr_executed :: bool
  cr_timestamp :: string

type_synonym cache_store = "string \<rightharpoonup> CachedResult"

record observation =
  reset_error :: "js_error option"
  fill_error :: "js_error option"
  method1_error :: "js_error option"
  method2_error :: "js_error option"
  method3_error :: "js_error option"
  method4_error :: "js_error option"
  page_content :: "js_error + string"
  xssDetected :: "js_error + bool"
  tracking_error :: "js_error option"
  cache_written :: bool
  now :: string

record library =
  JSON_stringify :: "jsval \<Rightarrow> string"
  md5_hex :: "string \<Rightarrow> string"
  cache_expired :: "string \<Rightarrow> bool"

definition cache_enabled :: "jsobject \<Rightarrow> bool" where
  "cache_enabled mergedOptions = opt2 mergedOptions ''cache'' ''enabled''"

definition maxAge :: "jsobject \<Rightarrow> int" where
  "maxAge mergedOptions =
     (case js_field (js_get mergedOptions ''cache'') ''maxAge'' of JNum n \<Rightarrow> n | _ \<Rightarrow> 0)"

text \<open>\<^verbatim>\<open>cacheExists(cacheKey, maxAge)\<close> followed by \<^verbatim>\<open>getCachedResult(cacheKey)\<close>.\<close>

definition cache_lookup ::
  "library \<Rightarrow> cache_store \<Rightarrow> string \<Rightarrow> int \<Rightarrow> CachedResult option \<times> cache_store" where
  "cache_lookup lib cache cacheKey age =
     (case cache cacheKey of
        None \<Rightarrow> (None, cache)
      | Some entry \<Rightarrow>
          if age > 0 \<and> cache_expired lib cacheKey then (None, cache(cacheKey := None))
          else (Some entry, cache))"

text \<open>\<^verbatim>\<open>cacheResult(cacheKey, cacheData)\<close>: a failed write is logged and leaves the store as it is.\<close>

definition cacheResult :: "observation \<Rightarrow> cache_store \<Rightarrow> string \<Rightarrow> CachedResult \<Rightarrow> cache_store" where
  "cacheResult obs cache cacheKey cacheData =
     (if cache_written obs then cache(cacheKey \<mapsto> cacheData) else cache)"

text \<open>The submission fallback chain: the nested \<^verbatim>\<open>try\<close>/\<^verbatim>\<open>catch\<close> around methods 1 to 4.\<close>

definition submit :: "jsobject \<Rightarrow> observation \<Rightarrow> js_error option" where
  "submit mergedOptions obs =
     (case (if truthy (js_get mergedOptions ''submitSelector'') then method1_error obs
            else Some (Error ''No submit selector specified'')) of
        None \<Rightarrow> None
      | Some submitError \<Rightarrow>
          (case method2_error obs of
             None \<Rightarrow> None
           | Some enterError \<Rightarrow>
               (case method3_error obs of
                  None \<Rightarrow> None
                | Some formError \<Rightarrow> method4_error obs)))"

text \<open>
  The test of \<^verbatim>\<open>mergedOptions.effectiveness.track\<close>: reading \<^verbatim>\<open>track\<close> of \<^verbatim>\<open>undefined\<close> or
  \<^verbatim>\<open>null\<close> throws a \<^verbatim>\<open>TypeError\<close>.
\<close>

definition effectiveness_track :: "jsobject \<Rightarrow> js_error + bool" where
  "effectiveness_track mergedOptions =
     (case js_get mergedOptions ''effectiveness'' of
        JUndefined \<Rightarrow> Inl (TypeError ''Cannot read properties of undefined (reading track)'')
      | JNull \<Rightarrow> Inl (TypeError ''Cannot read properties of null (reading track)'')
      | v \<Rightarrow> Inr (truthy (js_field v ''track'')))"

text \<open>
  The start of an iteration of \<^verbatim>\<open>for (const payload of payloadsToTest)\<close>: the cache key
  (\<^verbatim>\<open>null\<close>, here the empty string, when the cache is off), the cached result, if any, and
  the cache store.
\<close>

definition check_cache ::
  "library \<Rightarrow> jsobject \<Rightarrow> string \<Rightarrow> string \<Rightarrow> string \<Rightarrow> cache_store \<Rightarrow>
   string \<times> CachedResult option \<times> cache_store"
where
  "check_cache lib mergedOptions url inputFieldSelector payload cache =
     (if cache_enabled mergedOptions then
        (let cacheKey = generateCacheKey (JSON_stringify lib) (md5_hex lib) url
                          inputFieldSelector payload mergedOptions
         in case cache_lookup lib cache cacheKey (maxAge mergedOptions) of
              (cachedResult, cache') \<Rightarrow> (cacheKey, cachedResult, cache'))
      else ([], None, cache))"

text \<open>
  The test of a payload on the page: \<^verbatim>\<open>detected\<close> and \<^verbatim>\<open>executionVerified\<close>, or the error
  thrown on the way.
\<close>

definition live_test :: "jsobject \<Rightarrow> string \<Rightarrow> observation \<Rightarrow> js_error + bool \<times> bool" where
  "live_test mergedOptions payload obs =
     (case (if truthy (js_get mergedOptions ''verifyExecution'') then reset_error obs else None) of
        Some e \<Rightarrow> Inl e
      | None \<Rightarrow>
     (case fill_error obs of
        Some e \<Rightarrow> Inl e
      | None \<Rightarrow>
     (case submit mergedOptions obs of
        Some e \<Rightarrow> Inl e
      | None \<Rightarrow>
     (case page_content obs of
        Inl e \<Rightarrow> Inl e
      | Inr content \<Rightarrow>
     (let detected = str_includes content payload in
      case (if truthy (js_get mergedOptions ''verifyExecution'') then xssDetected obs
            else Inr False) of
        Inl e \<Rightarrow> Inl e
      | Inr executionVerified \<Rightarrow>
     (case effectiveness_track mergedOptions of
        Inl e \<Rightarrow> Inl e
      | Inr track \<Rightarrow>
     (case (if track then tracking_error obs else None) of
        Some e \<Rightarrow> Inl e
      | None \<Rightarrow> Inr (detected, executionVerified))))))))"

text \<open>
  One iteration of the loop: the results it pushes, the cache store it leaves, and the
  error it throws, if any.
\<close>

definition test_payload ::
  "library \<Rightarrow> jsobject \<Rightarrow> string \<Rightarrow> string \<Rightarrow> string \<Rightarrow> observation \<Rightarrow> cache_store \<Rightarrow>
   TestResult list \<times> cache_store \<times> js_error option"
where
  "test_payload lib mergedOptions url inputFieldSelector payload obs cache0 =
     (case check_cache lib mergedOptions url inputFieldSelector payload cache0 of
        (cacheKey, Some cached, cache) \<Rightarrow>
          (if cr_detected cached \<or> cr_executed cached
           then [\<lparr>r_payload = payload, r_reflected = cr_detected cached,
                  r_executed = cr_executed cached, r_url = url,
                  r_timestamp = cr_timestamp cached, r_fromCache = True\<rparr>]
           else [], cache, None)
      | (cacheKey, None, cache) \<Rightarrow>
          (case live_test mergedOptions payload obs of
             Inl e \<Rightarrow> ([], cache, Some e)
           | Inr (detected, executionVerified) \<Rightarrow>
               if detected \<or> executionVerified then
                 ([\<lparr>r_payload = payload, r_reflected = detected,
                    r_executed = executionVerified, r_url = url,
                    r_timestamp = now obs, r_fromCache = False\<rparr>],
                  if cache_enabled mergedOptions \<and> cacheKey \<noteq> []
                  then cacheResult obs cache cacheKey
                         \<lparr>cr_detected = detected, cr_executed = executionVerified,
                          cr_timestamp = now obs\<rparr>
                  else cache,
                  None)
               else if cache_enabled mergedOptions \<and> cacheKey \<noteq> [] then
                 ([], cacheResult obs cache cacheKey
                        \<lparr>cr_detected = False, cr_executed = False, cr_timestamp = now obs\<rparr>,
                  None)
               else ([], cache, None)))"

text \<open>
  The loop over \<^verbatim>\<open>payloadsToTest\<close>. An error thrown by an iteration ends the loop (it is
  caught by the \<^verbatim>\<open>catch\<close> of \<^verbatim>\<open>detectXSS\<close>); \<^verbatim>\<open>results\<close> keeps what was pushed before.
\<close>

fun test_payloads ::
  "library \<Rightarrow> jsobject \<Rightarrow> string \<Rightarrow> string \<Rightarrow> (string \<times> observation) list \<Rightarrow>
   TestResult list \<Rightarrow> cache_store \<Rightarrow> TestResult list \<times> cache_store \<times> js_error option"
where
  "test_payloads lib mergedOptions url inputFieldSelector [] results cache = (results, cache, None)"
| "test_payloads lib mergedOptions url inputFieldSelector ((payload, obs) # rest) results cache =
     (case test_payload lib mergedOptions url inputFieldSelector payload obs cache of
        (pushed, cache', Some e) \<Rightarrow> (results @ pushed, cache', Some e)
      | (pushed, cache', None) \<Rightarrow>
          test_payloads lib mergedOptions url inputFieldSelector rest (results @ pushed) cache')"

text \<open>\<^verbatim>\<open>{ ...fileConfig, ...options }\<close>: a property of \<^verbatim>\<open>options\<close> takes precedence.\<close>

definition js_spread :: "jsobject \<Rightarrow> jsobject \<Rightarrow> jsobject" where
  "js_spread fileConfig options =
     map (\<lambda>(k, v). (k, case map_of options k of Some v' \<Rightarrow> v' | None \<Rightarrow> v)) fileConfig
       @ filter (\<lambda>(k, v). k \<notin> fst ` set fileConfig) options"

text \<open>
  What the browser, the page and the stores do is given from outside: whether a browser
  and a page can be had (through \<^verbatim>\<open>getSession\<close>, or \<^verbatim>\<open>launch\<close>, \<^verbatim>\<open>newContext\<close> and
  \<^verbatim>\<open>newPage\<close>), whether \<^verbatim>\<open>page.goto\<close> and \<^verbatim>\<open>page.addInitScript\<close> throw, the payloads the
  selection step yields (or the error it throws), each with what the page shows when its
  turn comes, whether \<^verbatim>\<open>saveSessionState\<close> throws, and what the report generators return.
\<close>

record world =
  acquire_error :: "js_error option"
  goto_error :: "js_error option"
  addInitScript_error :: "js_error option"
  payloadsToTest :: "js_error + (string \<times> observation) list"
  saveSessionState_error :: "js_error option"
  generate_reports :: "js_error + (string \<times> string) list"

datatype teardown_event =
    ReleasePageCalled
  | PageClosed
  | ContextClosed
  | BrowserClosed
  | SessionStateSaved
  | SessionClosed

record detect_result =
  dr_results :: "TestResult list"
  dr_reportPaths :: "(string \<times> string) list"

text \<open>Acquiring a browser, a context and a page, before the \<^verbatim>\<open>try\<close>.\<close>

definition acquire :: "world \<Rightarrow> jsobject \<Rightarrow> js_error option" where
  "acquire w mergedOptions =
     (if truthy (js_get mergedOptions ''session'') then acquire_error w
      else (case js_get mergedOptions ''browser'' of
              JStr name \<Rightarrow> acquire_error w
            | _ \<Rightarrow> Some (TypeError ''mergedOptions.browser.toLowerCase is not a function'')))"

text \<open>
  The body of the \<^verbatim>\<open>try\<close> with its \<^verbatim>\<open>catch\<close>, which logs the error and goes on: the
  results pushed, the cache store, and the error that was caught, if any.
  (\<^verbatim>\<open>authenticate\<close> catches its own errors and its verdict is only logged.)
\<close>

definition try_block ::
  "library \<Rightarrow> world \<Rightarrow> jsobject \<Rightarrow> string \<Rightarrow> string \<Rightarrow> cache_store \<Rightarrow>
   TestResult list \<times> cache_store \<times> js_error option"
where
  "try_block lib w mergedOptions url inputFieldSelector cache =
     (case goto_error w of
        Some e \<Rightarrow> ([], cache, Some e)
      | None \<Rightarrow>
     (case (if truthy (js_get mergedOptions ''verifyExecution'') then addInitScript_error w else None) of
        Some e \<Rightarrow> ([], cache, Some e)
      | None \<Rightarrow>
     (case payloadsToTest w of
        Inl e \<Rightarrow> ([], cache, Some e)
      | Inr tests \<Rightarrow> test_payloads lib mergedOptions url inputFieldSelector tests [] cache)))"

text \<open>
  The identifiers that the \<^verbatim>\<open>finally\<close> block can refer to: those declared at the top level
  of the function body and of the module (the block declares none itself). A \<^verbatim>\<open>const\<close> or
  \<^verbatim>\<open>let\<close> declared inside another block is not among them: \<^verbatim>\<open>releasePage\<close> is declared in
  the block of \<^verbatim>\<open>if (mergedOptions.session)\<close>, \<^verbatim>\<open>totalPayloads\<close> and \<^verbatim>\<open>processedPayloads\<close>
  in the block of \<^verbatim>\<open>try\<close>. Reading an identifier that is not declared throws a
  \<^verbatim>\<open>ReferenceError\<close>.
\<close>

definition module_scope :: "string list" where
  "module_scope =
     [''chromium'', ''firefox'', ''webkit'', ''generateJSONReport'', ''generateHTMLReport'',
      ''updatePayloadEffectiveness'', ''getMostEffectivePayloads'', ''selectSmartPayloads'',
      ''loadConfig'', ''updateConfig'', ''retryPageOperation'', ''getSession'', ''closeSession'',
      ''saveSessionState'', ''loadSessionState'', ''sessionExists'', ''generateCacheKey'',
      ''cacheExists'', ''getCachedResult'', ''cacheResult'', ''clearCache'', ''getCacheStats'',
      ''authenticate'', ''detectXSS'', ''detectXSSParallel'']"

definition function_scope :: "string list" where
  "function_scope =
     [''url'', ''inputFieldSelector'', ''customPayloads'', ''options'', ''fileConfig'',
      ''mergedOptions'', ''browser'', ''context'', ''page'', ''sessionWasReused'', ''results'',
      ''reportPaths'']"

definition session_block_scope :: "string list" where
  "session_block_scope =
     [''sessionId'', ''shouldReuseSession'', ''sessionState'', ''contextOptions'',
      ''launchOptions'', ''sessionResult'', ''releasePage'']"

definition try_block_scope :: "string list" where
  "try_block_scope =
     [''navigationTimeout'', ''payloadsToTest'', ''totalPayloads'', ''processedPayloads'']"

definition finally_block_scope :: "string list" where
  "finally_block_scope = []"

definition visible_in_finally :: "string \<Rightarrow> bool" where
  "visible_in_finally name = (name \<in> set (finally_block_scope @ function_scope @ module_scope))"

text \<open>The \<^verbatim>\<open>finally\<close> block: the error it throws, if any, and what it did before.\<close>

definition finally_block :: "world \<Rightarrow> jsobject \<Rightarrow> js_error option \<times> teardown_event list" where
  "finally_block w mergedOptions =
     (if opt2 mergedOptions ''logging'' ''showProgress'' \<and> \<not> visible_in_finally ''processedPayloads''
      then (Some (ReferenceError ''processedPayloads is not defined''), [])
      else if opt2 mergedOptions ''logging'' ''showProgress'' \<and> \<not> visible_in_finally ''totalPayloads''
      then (Some (ReferenceError ''totalPayloads is not defined''), [])
      else if truthy (js_get mergedOptions ''session'') then
        (if \<not> visible_in_finally ''releasePage''
         then (Some (ReferenceError ''releasePage is not defined''), [])
         else if truthy (js_field (js_get mergedOptions ''session'') ''save'') then
           (case saveSessionState_error w of
              Some e \<Rightarrow> (Some e, [ReleasePageCalled])
            | None \<Rightarrow>
                (None, [ReleasePageCalled, SessionStateSaved]
                   @ (if truthy (js_field (js_get mergedOptions ''session'') ''closeAfter'')
                      then [SessionClosed] else [])))
         else
           (None, [ReleasePageCalled]
              @ (if truthy (js_field (js_get mergedOptions ''session'') ''closeAfter'')
                 then [SessionClosed] else [])))
      else (None, [PageClosed, ContextClosed, BrowserClosed]))"

text \<open>
  \<^verbatim>\<open>detectXSS(url, inputFieldSelector, customPayloads, options)\<close>: what the call resolves
  to (\<open>Inr\<close>) or rejects with (\<open>Inl\<close>), the cache store it leaves, and what its teardown did.
\<close>

definition detectXSS_call ::
  "library \<Rightarrow> world \<Rightarrow> jsobject \<Rightarrow> string \<Rightarrow> string \<Rightarrow> jsobject \<Rightarrow> cache_store \<Rightarrow>
   (js_error + detect_result) \<times> cache_store \<times> teardown_event list"
where
  "detectXSS_call lib w fileConfig url inputFieldSelector options cache =
     (let mergedOptions = js_spread fileConfig options in
      case acquire w mergedOptions of
        Some e \<Rightarrow> (Inl e, cache, [])
      | None \<Rightarrow>
          (case try_block lib w mergedOptions url inputFieldSelector cache of
             (results, cache', caught) \<Rightarrow>
               (case finally_block w mergedOptions of
                  (Some e, done) \<Rightarrow> (Inl e, cache', done)
                | (None, done) \<Rightarrow>
                    (case (if opt2 mergedOptions ''report'' ''format'' then generate_reports w
                           else Inr []) of
                       Inl e \<Rightarrow> (Inl e, cache', done)
                     | Inr paths \<Rightarrow>
                         (Inr \<lparr>dr_results = results, dr_reportPaths = paths\<rparr>, cache', done)))))"


definition plain_library :: library where
  "plain_library = \<lparr>JSON_stringify = (\<lambda>v. ''{}''), md5_hex = (\<lambda>s. ''d41d8cd9''), cache_expired = (\<lambda>k. False)\<rparr>"

definition quiet_config :: jsobject where
  "quiet_config =
     [(''browser'', JStr ''chromium''),
      (''verifyExecution'', JBool True),
      (''logging'', JObj [(''verbose'', JBool False), (''showProgress'', JBool False)]),
      (''effectiveness'', JObj [(''track'', JBool False)])]"

definition clean_page :: observation where
  "clean_page =
     \<lparr>reset_error = None, fill_error = None, method1_error = None, method2_error = None,
      method3_error = None, method4_error = None,
      page_content = Inr ''<html><body>No results</body></html>'', xssDetected = Inr False,
      tracking_error = None, cache_written = True, now = ''2024-01-01T00:00:00.000Z''\<rparr>"

definition calm_world :: world where
  "calm_world =
     \<lparr>acquire_error = None, goto_error = None, addInitScript_error = None,
      payloadsToTest = Inr [(''<b>hi</b>'', clean_page)],
      saveSessionState_error = None, generate_reports = Inr []\<rparr>"



definition session_options :: jsobject where
  "session_options =
     [(''session'', JObj [(''id'', JStr ''s''), (''save'', JBool True), (''closeAfter'', JBool True)])]"

text \<open>
  What is observed for a payload when its turn comes. With the cache enabled and an entry
  found for the payload's fingerprint, it is that entry; otherwise it is the state of the
  page after submission: the payload occurs in the page content, and (only when
  \<^verbatim>\<open>verifyExecution\<close> is on) the monitor's flag is raised.
\<close>

definition reflected_on :: "string \<Rightarrow> observation \<Rightarrow> bool" where
  "reflected_on payload obs =
     (case page_content obs of Inr content \<Rightarrow> str_includes content payload | Inl e \<Rightarrow> False)"

definition executed_on :: "jsobject \<Rightarrow> observation \<Rightarrow> bool" where
  "executed_on mergedOptions obs =
     (truthy (js_get mergedOptions ''verifyExecution'') \<and> xssDetected obs = Inr True)"










text \<open>
  The cache store outlives a call and is shared by all calls. It is sound when every entry
  filed under the fingerprint of a configuration with \<^verbatim>\<open>verifyExecution\<close> off says
  \<^verbatim>\<open>executed: false\<close>. The fingerprint separates the two settings when two configurations
  with the same fingerprint agree on whether \<^verbatim>\<open>verifyExecution\<close> is on.
\<close>

definition cache_sound :: "library \<Rightarrow> cache_store \<Rightarrow> bool" where
  "cache_sound lib cache =
     (\<forall>url inputFieldSelector payload options entry.
        \<not> truthy (js_get options ''verifyExecution'')
        \<and> cache (generateCacheKey (JSON_stringify lib) (md5_hex lib) url inputFieldSelector
                    payload options) = Some entry
        \<longrightarrow> \<not> cr_executed entry)"

definition fingerprint_separates :: "library \<Rightarrow> bool" where
  "fingerprint_separates lib =
     (\<forall>url inputFieldSelector payload options url' inputFieldSelector' payload' options'.
        generateCacheKey (JSON_stringify lib) (md5_hex lib) url inputFieldSelector payload options
          = generateCacheKey (JSON_stringify lib) (md5_hex lib) url' inputFieldSelector' payload'
              options'
        \<longrightarrow> truthy (js_get options ''verifyExecution'')
              = truthy (js_get options' ''verifyExecution''))"

text \<open>
  A library for the examples: the serialisation of a configuration lists its strings and
  says whether \<^verbatim>\<open>verifyExecution\<close> is on; the digest is the identity.
\<close>

definition keyed_library :: library where
  "keyed_library =
     \<lparr>JSON_stringify =
        (\<lambda>v. case v of
                JObj props \<Rightarrow>
                  concat (map (\<lambda>(k, x). case x of
                                           JStr s \<Rightarrow> s @ ''|''
                                         | JObj obj \<Rightarrow>
                                             if truthy (js_get obj ''verifyExecution'')
                                             then ''exec'' else ''noexec''
                                         | _ \<Rightarrow> [])
                            props)
              | _ \<Rightarrow> []),
      md5_hex = (\<lambda>s. s),
      cache_expired = (\<lambda>k. False)\<rparr>"

definition exploited_page :: observation where
  "exploited_page =
     clean_page\<lparr>page_content := Inr ''<html><body><script>alert(1)</script></body></html>'',
                xssDetected := Inr True\<rparr>"

definition two_world :: world where
  "two_world =
     calm_world\<lparr>payloadsToTest :=
                  Inr [(''<b>hi</b>'', clean_page), (''<script>alert(1)</script>'', exploited_page)]\<rparr>"

definition unverified_cached_options :: jsobject where
  "unverified_cached_options =
     [(''verifyExecution'', JBool False), (''cache'', JObj [(''enabled'', JBool True)])]"

definition warm_cache :: cache_store where
  "warm_cache =
     [''http://target/|#q|<b>hi</b>|noexec'' \<mapsto>
        \<lparr>cr_detected = True, cr_executed = False, cr_timestamp = ''2023-12-31T00:00:00.000Z''\<rparr>]"

chapter \<open>Properties\<close>

section \<open>Properties of \<^verbatim>\<open>retry\<close>\<close>

lemma upto_cons_len:
  "xs = [a + 1 .. a + 1 + int (length xs) - 1] \<Longrightarrow> a # xs = [a .. a + int (length (a # xs)) - 1]"
proof -
  assume h: "xs = [a + 1 .. a + 1 + int (length xs) - 1]"
  have "[a .. a + int (length (a # xs)) - 1] = a # [a + 1 .. a + int (length (a # xs)) - 1]"
    by (rule upto_rec1) simp
  also have "\<dots> = a # xs" using h by (simp add: algebra_simps)
  finally show ?thesis by simp
qed

text \<open>With a whole number for \<^verbatim>\<open>maxAttempts\<close>: one step of the loop, per outcome.\<close>

lemma whole_bound:
  "to_number (Number (Fin (of_int n))) = Some (Fin (of_int n))"
  "int_le a (Fin (of_int n)) = (a \<le> n)"
  "strict_eq a (Number (Fin (of_int n))) = (a = n)"
  by (auto simp: to_number_def int_le_def strict_eq_def)

lemma retry_from_exit:
  "attempts_bound opts = Number (Fin (of_int n)) \<Longrightarrow> \<not> a \<le> n \<Longrightarrow>
   retry_from nullish fn opts a = Some ([], Inr None)"
  by (subst retry_from.simps) (simp add: whole_bound)

lemma retry_from_ok:
  "attempts_bound opts = Number (Fin (of_int n)) \<Longrightarrow> a \<le> n \<Longrightarrow> fn a = Inr v \<Longrightarrow>
   retry_from nullish fn opts a = Some ([Call a], Inr (Some v))"
  by (subst retry_from.simps) (simp add: whole_bound)

lemma retry_from_veto:
  "attempts_bound opts = Number (Fin (of_int n)) \<Longrightarrow> a \<le> n \<Longrightarrow> fn a = Inl e \<Longrightarrow>
   \<not> shouldRetry opts e \<Longrightarrow>
   retry_from nullish fn opts a = Some ([Call a], Inl (Thrown e))"
  by (subst retry_from.simps) (simp add: whole_bound)

lemma retry_from_last:
  "attempts_bound opts = Number (Fin (of_int n)) \<Longrightarrow> a = n \<Longrightarrow> fn a = Inl e \<Longrightarrow> shouldRetry opts e \<Longrightarrow>
   retry_from nullish fn opts a
     = Some ([Call a], Inl (if nullish e then MessageError else AllAttemptsFailed a e))"
  by (subst retry_from.simps) (simp add: whole_bound)

lemma retry_from_cb_throws:
  "attempts_bound opts = Number (Fin (of_int n)) \<Longrightarrow> a < n \<Longrightarrow> fn a = Inl e \<Longrightarrow> shouldRetry opts e \<Longrightarrow>
   onRetry opts = Some cb \<Longrightarrow> cb a (nextDelay opts a) e = Some e' \<Longrightarrow>
   retry_from nullish fn opts a = Some ([Call a, OnRetry a (nextDelay opts a)], Inl (Thrown e'))"
  by (subst retry_from.simps) (simp add: whole_bound)

lemma retry_from_again:
  "attempts_bound opts = Number (Fin (of_int n)) \<Longrightarrow> a < n \<Longrightarrow> fn a = Inl e \<Longrightarrow> shouldRetry opts e \<Longrightarrow>
   (onRetry opts = None \<or> (\<exists>cb. onRetry opts = Some cb \<and> cb a (nextDelay opts a) e = None)) \<Longrightarrow>
   retry_from nullish fn opts (a + 1) = Some (tr, r) \<Longrightarrow>
   retry_from nullish fn opts a =
       Some (Call a # (case onRetry opts of None \<Rightarrow> [] | Some _ \<Rightarrow> [OnRetry a (nextDelay opts a)])
               @ Wait (nextDelay opts a) # tr, r)"
  by (subst retry_from.simps) (auto simp: whole_bound)

text \<open>The six outcomes are exhaustive.\<close>

lemma retry_from_cases:
  fixes n :: int
  obtains
    (exit) "\<not> a \<le> n"
  | (ok) v where "a \<le> n" "fn a = Inr v"
  | (veto) e where "a \<le> n" "fn a = Inl e" "\<not> shouldRetry opts e"
  | (last) e where "a = n" "fn a = Inl e" "shouldRetry opts e"
  | (cb_throws) e cb e' where "a < n" "fn a = Inl e" "shouldRetry opts e"
      "onRetry opts = Some cb" "cb a (nextDelay opts a) e = Some e'"
  | (again) e where "a < n" "fn a = Inl e" "shouldRetry opts e"
      "onRetry opts = None \<or> (\<exists>cb. onRetry opts = Some cb \<and> cb a (nextDelay opts a) e = None)"
proof (cases "a \<le> n")
  case False then show ?thesis by (rule exit)
next
  case le: True
  show ?thesis
  proof (cases "fn a")
    case (Inr v) with le show ?thesis by (rule ok)
  next
    case (Inl e)
    show ?thesis
    proof (cases "shouldRetry opts e")
      case False with le Inl show ?thesis by (rule veto)
    next
      case sr: True
      show ?thesis
      proof (cases "a = n")
        case True from True Inl sr show ?thesis by (rule last)
      next
        case False
        with le have lt: "a < n" by simp
        show ?thesis
        proof (cases "onRetry opts")
          case None with lt Inl sr show ?thesis by (intro again) auto
        next
          case (Some cb)
          show ?thesis
          proof (cases "cb a (nextDelay opts a) e")
            case None with lt Inl sr Some show ?thesis by (intro again) auto
          next
            case (Some e') with lt Inl sr \<open>onRetry opts = Some cb\<close> show ?thesis by (rule cb_throws)
          qed
        qed
      qed
    qed
  qed
qed

lemma calls_notify [simp]:
  "calls ((case cbo of None \<Rightarrow> [] | Some x \<Rightarrow> [OnRetry a d]) @ es) = calls es"
  by (cases cbo) auto

lemma waits_notify [simp]:
  "waits ((case cbo of None \<Rightarrow> [] | Some x \<Rightarrow> [OnRetry a d]) @ es) = waits es"
  by (cases cbo) auto

lemma retry_from_run_induct [case_names exit ok veto last cb_throws again]:
  fixes P :: "int \<Rightarrow> retry_event list \<times> ('e retry_error + 'r option) \<Rightarrow> bool"
  assumes whole: "attempts_bound opts = Number (Fin (of_int n))"
    and "\<And>a. \<not> a \<le> n \<Longrightarrow> P a ([], Inr None)"
    and "\<And>a v. a \<le> n \<Longrightarrow> fn a = Inr v \<Longrightarrow> P a ([Call a], Inr (Some v))"
    and "\<And>a e. a \<le> n \<Longrightarrow> fn a = Inl e \<Longrightarrow> \<not> shouldRetry opts e \<Longrightarrow>
           P a ([Call a], Inl (Thrown e))"
    and "\<And>a e. a = n \<Longrightarrow> fn a = Inl e \<Longrightarrow> shouldRetry opts e \<Longrightarrow>
           P a ([Call a], Inl (if nullish e then MessageError else AllAttemptsFailed a e))"
    and "\<And>a e cb e'. a < n \<Longrightarrow> fn a = Inl e \<Longrightarrow> shouldRetry opts e \<Longrightarrow>
           onRetry opts = Some cb \<Longrightarrow> cb a (nextDelay opts a) e = Some e' \<Longrightarrow>
           P a ([Call a, OnRetry a (nextDelay opts a)], Inl (Thrown e'))"
    and "\<And>a e tr r. a < n \<Longrightarrow> fn a = Inl e \<Longrightarrow> shouldRetry opts e \<Longrightarrow>
           retry_from nullish fn opts (a + 1) = Some (tr, r) \<Longrightarrow> P (a + 1) (tr, r) \<Longrightarrow>
           P a (Call a # (case onRetry opts of None \<Rightarrow> [] | Some _ \<Rightarrow> [OnRetry a (nextDelay opts a)])
                  @ Wait (nextDelay opts a) # tr, r)"
  shows "\<exists>run. retry_from nullish fn opts a = Some run \<and> P a run"
proof (induction "nat (n + 1 - a)" arbitrary: a rule: less_induct)
  case less
  show ?case
  proof (cases rule: retry_from_cases [where a = a and n = n and opts = opts and fn = fn])
    case exit
    then show ?thesis by (simp add: retry_from_exit [OF whole] assms(2))
  next
    case (ok v)
    then show ?thesis by (simp add: retry_from_ok [OF whole] assms(3))
  next
    case (veto e)
    then show ?thesis by (simp add: retry_from_veto [OF whole] assms(4))
  next
    case (last e)
    then show ?thesis using assms(5) [OF last] by (auto simp: retry_from_last [OF whole])
  next
    case (cb_throws e cb e')
    then show ?thesis by (simp add: retry_from_cb_throws [OF whole] assms(6))
  next
    case (again e)
    have "\<exists>run. retry_from nullish fn opts (a + 1) = Some run \<and> P (a + 1) run"
      using again by (intro less) simp
    then obtain tr r where run: "retry_from nullish fn opts (a + 1) = Some (tr, r)"
      and ih: "P (a + 1) (tr, r)"
      by auto
    have eq: "retry_from nullish fn opts a =
       Some (Call a # (case onRetry opts of None \<Rightarrow> [] | Some _ \<Rightarrow> [OnRetry a (nextDelay opts a)])
          @ Wait (nextDelay opts a) # tr, r)"
      using whole again run by (rule retry_from_again)
    show ?thesis
      using assms(7) [OF again(1,2,3) run ih] by (simp add: eq)
  qed
qed

lemma retry_from_returns:
  assumes "attempts_bound opts = Number (Fin (of_int n))"
  shows "\<exists>run. retry_from nullish fn opts a = Some run"
  using retry_from_run_induct [OF assms, where P = "\<lambda>a run. True" and a = a and fn = fn
      and nullish = nullish]
  by auto

lemma retry_from_nonempty:
  assumes "attempts_bound opts = Number (Fin (of_int n))"
  shows "\<exists>run. retry_from nullish fn opts a = Some run \<and> (calls (fst run) \<noteq> []) = (a \<le> n)"
  by (rule retry_from_run_induct [OF assms]) simp_all

lemma retry_from_calls:
  assumes "attempts_bound opts = Number (Fin (of_int n))"
  shows "\<exists>run. retry_from nullish fn opts a = Some run
     \<and> calls (fst run) = [a .. a + int (length (calls (fst run))) - 1]"
proof (rule retry_from_run_induct [OF assms], goal_cases)
  case (6 a e tr r)
  then show ?case using upto_cons_len [of "calls tr" a] by simp
qed simp_all

lemma retry_from_bounded:
  assumes "attempts_bound opts = Number (Fin (of_int n))"
  shows "\<exists>run. retry_from nullish fn opts a = Some run
     \<and> length (calls (fst run)) \<le> nat (n + 1 - a)"
  by (rule retry_from_run_induct [OF assms]) auto

lemma retry_from_waits:
  assumes "attempts_bound opts = Number (Fin (of_int n))"
  shows "\<exists>run. retry_from nullish fn opts a = Some run
     \<and> (calls (fst run) \<noteq> []) = (a \<le> n)
     \<and> waits (fst run) =
         map (\<lambda>i. nextDelay opts (a + int i)) [0 ..< length (calls (fst run)) - 1]"
proof (rule retry_from_run_induct [OF assms], goal_cases)
  case (6 a e tr r)
  then have "calls tr \<noteq> []" by simp
  then obtain m where m: "length (calls tr) = Suc m"
    by (cases "calls tr") auto
  show ?case using 6 m by (simp add: map_upt_Suc add.assoc del: upt_Suc)
qed simp_all

lemma retry_from_vetoed:
  assumes "attempts_bound opts = Number (Fin (of_int n))"
  shows "\<exists>run. retry_from nullish fn opts a = Some run
     \<and> (\<forall>k e. k \<in> set (calls (fst run)) \<and> fn k = Inl e \<and> \<not> shouldRetry opts e
           \<longrightarrow> snd run = Inl (Thrown e) \<and> last (calls (fst run)) = k)"
  by (rule retry_from_run_induct [OF assms]) auto

lemma retry_from_all_throw:
  assumes "attempts_bound opts = Number (Fin (of_int n))"
  shows "\<exists>run. retry_from nullish fn opts a = Some run
     \<and> (a \<le> n \<and> (\<forall>k\<in>set (calls (fst run)). isl (fn k)) \<longrightarrow> isl (snd run))"
  by (rule retry_from_run_induct [OF assms]) auto

text \<open>
  With a whole number \<open>n\<close> for \<^verbatim>\<open>maxAttempts\<close>, \<^verbatim>\<open>retry\<close> returns, and: \<^verbatim>\<open>fn\<close> is called at
  most \<open>n\<close> times, with attempt numbers 1, 2, ... in order; an error that \<^verbatim>\<open>shouldRetry\<close>
  rejects is rethrown as it is and the call that threw it is the last one; there is one
  wait between two successive attempts, the \<open>i\<close>-th (from 0) of \<open>delay * 2 ^ i\<close>
  milliseconds with exponential backoff and of \<open>delay\<close> otherwise; an attempt is made
  exactly when \<open>1 \<le> n\<close>, and when every attempt made throws, \<^verbatim>\<open>retry\<close> throws.
\<close>

lemma retry_whole_number_contract:
  assumes "attempts_bound opts = Number (Fin (of_int n))"
  shows "\<exists>tr r. retry nullish fn opts = Some (tr, r)
    \<and> length (calls tr) \<le> nat n
    \<and> calls tr = [1 .. int (length (calls tr))]
    \<and> (\<forall>k e. k \<in> set (calls tr) \<and> fn k = Inl e \<and> \<not> shouldRetry opts e
          \<longrightarrow> r = Inl (Thrown e) \<and> last (calls tr) = k)
    \<and> waits tr = map (\<lambda>i. if exponentialBackoff opts then times_pow2 (delay opts) i
                             else delay opts)
                     [0 ..< length (calls tr) - 1]
    \<and> ((calls tr \<noteq> []) = (1 \<le> n))
    \<and> (calls tr \<noteq> [] \<and> (\<forall>k \<in> set (calls tr). isl (fn k)) \<longrightarrow> isl r)"
proof -
  obtain run where run: "retry_from nullish fn opts 1 = Some run"
    using retry_from_returns [OF assms] by blast
  obtain tr r where trr: "run = (tr, r)" by (cases run)
  have bounded: "length (calls tr) \<le> nat n"
    using retry_from_bounded [OF assms, of nullish fn 1] by (simp add: run trr)
  have consecutive: "calls tr = [1 .. int (length (calls tr))]"
    using retry_from_calls [OF assms, of nullish fn 1] by (simp add: run trr)
  have veto: "\<forall>k e. k \<in> set (calls tr) \<and> fn k = Inl e \<and> \<not> shouldRetry opts e
          \<longrightarrow> r = Inl (Thrown e) \<and> last (calls tr) = k"
    using retry_from_vetoed [OF assms, of nullish fn 1] by (simp add: run trr)
  have "nextDelay opts (1 + int i) =
      (if exponentialBackoff opts then times_pow2 (delay opts) i else delay opts)" for i
    by (simp add: nextDelay_def)
  then have backoff: "waits tr =
      map (\<lambda>i. if exponentialBackoff opts then times_pow2 (delay opts) i else delay opts)
        [0 ..< length (calls tr) - 1]"
    using retry_from_waits [OF assms, of nullish fn 1] by (simp add: run trr)
  have attempted: "(calls tr \<noteq> []) = (1 \<le> n)"
    using retry_from_nonempty [OF assms, of nullish fn 1] by (simp add: run trr)
  have exhausted: "calls tr \<noteq> [] \<and> (\<forall>k \<in> set (calls tr). isl (fn k)) \<longrightarrow> isl r"
    using retry_from_all_throw [OF assms, of nullish fn 1] attempted by (simp add: run trr)
  have "retry nullish fn opts = Some (tr, r)"
    by (simp add: retry_def run trr)
  with bounded consecutive veto backoff attempted exhausted show ?thesis by blast
qed

lemma retry_whole_number_contract_example:
  "attempts_bound (plain_options (Number (Fin (of_int 3)))) = Number (Fin (of_int 3))
   \<and> retry (\<lambda>e. False) always_timeout (plain_options (Number (Fin (of_int 3))))
       = Some ([Call 1, Wait (Fin 1000), Call 2, Wait (Fin 2000), Call 3],
               Inl (AllAttemptsFailed 3 ''timeout''))"
proof -
  have b: "attempts_bound (plain_options (Number (Fin (of_int 3)))) = Number (Fin (of_int 3))"
    by (simp add: attempts_bound_def plain_options_def or_default_def)
  have run: "retry (\<lambda>e. False) always_timeout (plain_options (Number (Fin (of_int 3))))
       = Some ([Call 1, Wait (Fin 1000), Call 2, Wait (Fin 2000), Call 3],
               Inl (AllAttemptsFailed 3 ''timeout''))"
    by code_simp
  from retry_whole_number_contract [OF b, of "\<lambda>e. False" always_timeout] b run
  show ?thesis by simp
qed

text \<open>
  With a finite bound that \<^verbatim>\<open>===\<close> never meets (a number that is not whole, a boolean, a
  string), a callback that throws at every attempt an error that may be retried, and no
  \<^verbatim>\<open>onRetry\<close>: every attempt up to the bound is made, and \<^verbatim>\<open>retry\<close> resolves to \<^verbatim>\<open>undefined\<close>.
\<close>

lemma retry_from_never_last:
  assumes n: "to_number (attempts_bound opts) = Some (Fin q)"
    and ne: "\<And>a. \<not> strict_eq a (attempts_bound opts)"
    and thr: "\<And>k. \<exists>e. fn k = Inl e \<and> shouldRetry opts e"
    and cb: "onRetry opts = None"
  shows "\<exists>tr. retry_from nullish fn opts a = Some (tr, Inr None) \<and> calls tr = [a .. \<lfloor>q\<rfloor>]"
proof (induction "nat (\<lfloor>q\<rfloor> + 1 - a)" arbitrary: a rule: less_induct)
  case less
  show ?case
  proof (cases "a \<le> \<lfloor>q\<rfloor>")
    case False
    then have "\<not> int_le a (Fin q)" by (simp add: int_le_def le_floor_iff)
    then have "retry_from nullish fn opts a = Some ([], Inr None)"
      by (subst retry_from.simps) (simp add: n)
    with False show ?thesis by simp
  next
    case True
    then have le: "int_le a (Fin q)" by (simp add: int_le_def le_floor_iff)
    obtain e where e: "fn a = Inl e" "shouldRetry opts e" using thr by blast
    obtain tr where tr: "retry_from nullish fn opts (a + 1) = Some (tr, Inr None)"
      and c: "calls tr = [a + 1 .. \<lfloor>q\<rfloor>]"
      using less [of "a + 1"] True by auto
    have "retry_from nullish fn opts a
        = Some (Call a # Wait (nextDelay opts a) # tr, Inr None)"
      by (subst retry_from.simps) (simp add: n le e ne cb tr)
    moreover have "calls (Call a # Wait (nextDelay opts a) # tr) = [a .. \<lfloor>q\<rfloor>]"
      using True by (simp add: c upto_rec1 [of a])
    ultimately show ?thesis by blast
  qed
qed

text \<open>
  Claim C4 does not hold of the code in its last part. The loop runs while
  \<^verbatim>\<open>attempt <= maxAttempts\<close> but recognises its last attempt by \<^verbatim>\<open>attempt === maxAttempts\<close>.
  With \<^verbatim>\<open>maxAttempts = 2.5\<close>, and with \<^verbatim>\<open>maxAttempts = true\<close>, the second test never holds:
  when every attempt throws, \<^verbatim>\<open>retry\<close> waits once more after the last attempt, leaves the
  loop and resolves to \<^verbatim>\<open>undefined\<close> instead of throwing.
\<close>

theorem retry_resolves_though_every_attempt_threw:
  "retry (\<lambda>e. False) always_timeout (plain_options (Number (Fin (5 / 2))))
     = Some ([Call 1, Wait (Fin 1000), Call 2, Wait (Fin 2000)], Inr None)
   \<and> retry (\<lambda>e. False) always_timeout (plain_options (Boolean True))
     = Some ([Call 1, Wait (Fin 1000)], Inr None)"
  by code_simp

section \<open>Properties of \<^verbatim>\<open>generateCacheKey\<close>\<close>

lemma relevantOptions_cong:
  "js_get o1 ''browser'' = js_get o2 ''browser'' \<Longrightarrow>
   js_get o1 ''verifyExecution'' = js_get o2 ''verifyExecution'' \<Longrightarrow>
   js_get o1 ''submitSelector'' = js_get o2 ''submitSelector'' \<Longrightarrow>
   relevantOptions o1 = relevantOptions o2"
  by (simp add: relevantOptions_def)

lemma js_get_reorder:
  "distinct (map fst o1) \<Longrightarrow> distinct (map fst o2) \<Longrightarrow> set o1 = set o2 \<Longrightarrow> js_get o1 k = js_get o2 k"
proof -
  assume "distinct (map fst o1)" "distinct (map fst o2)" "set o1 = set o2"
  then have "map_of o1 = map_of o2" by (simp add: map_of_inject_set)
  then show ?thesis by (simp add: js_get_def)
qed

text \<open>
  Claim C5. The fingerprint is a function of its four arguments, and of the options it
  reads only \<^verbatim>\<open>browser\<close>, \<^verbatim>\<open>verifyExecution\<close> and \<^verbatim>\<open>submitSelector\<close>: two option objects that
  agree on these three properties give the same fingerprint for the same url, selector and
  payload, whatever else they hold; and two option objects with the same properties in a
  different key order give the same fingerprint.
\<close>

theorem generateCacheKey_relevant_only:
  "((\<forall>k \<in> {''browser'', ''verifyExecution'', ''submitSelector''}. js_get o1 k = js_get o2 k)
      \<longrightarrow> generateCacheKey stringify md5 url sel payload o1
          = generateCacheKey stringify md5 url sel payload o2)
   \<and> (distinct (map fst o1) \<and> distinct (map fst o2) \<and> set o1 = set o2
      \<longrightarrow> generateCacheKey stringify md5 url sel payload o1
          = generateCacheKey stringify md5 url sel payload o2)"
proof (intro conjI impI)
  assume "\<forall>k \<in> {''browser'', ''verifyExecution'', ''submitSelector''}. js_get o1 k = js_get o2 k"
  then have "relevantOptions o1 = relevantOptions o2"
    by (intro relevantOptions_cong) simp_all
  then show "generateCacheKey stringify md5 url sel payload o1
          = generateCacheKey stringify md5 url sel payload o2"
    by (simp add: generateCacheKey_def cacheConfig_def)
next
  assume "distinct (map fst o1) \<and> distinct (map fst o2) \<and> set o1 = set o2"
  then have "js_get o1 k = js_get o2 k" for k
    by (simp add: js_get_reorder)
  then have "relevantOptions o1 = relevantOptions o2"
    by (intro relevantOptions_cong)
  then show "generateCacheKey stringify md5 url sel payload o1
          = generateCacheKey stringify md5 url sel payload o2"
    by (simp add: generateCacheKey_def cacheConfig_def)
qed

theorem generateCacheKey_relevant_only_witness:
  "js_get [(''browser'', JStr ''firefox''), (''timeout'', JNum 1000)] ''browser''
     = js_get [(''logging'', JObj [(''verbose'', JBool True)]), (''browser'', JStr ''firefox'')] ''browser''
   \<and> generateCacheKey (\<lambda>v. ''json'') (\<lambda>s. s) ''http://t/'' ''#q'' ''<b>''
         [(''browser'', JStr ''firefox''), (''timeout'', JNum 1000)]
     = generateCacheKey (\<lambda>v. ''json'') (\<lambda>s. s) ''http://t/'' ''#q'' ''<b>''
         [(''logging'', JObj [(''verbose'', JBool True)]), (''browser'', JStr ''firefox'')]
   \<and> generateCacheKey (\<lambda>v. ''json'') (\<lambda>s. s) ''http://t/'' ''#q'' ''<b>''
         [(''browser'', JStr ''firefox''), (''verifyExecution'', JBool True)]
     = generateCacheKey (\<lambda>v. ''json'') (\<lambda>s. s) ''http://t/'' ''#q'' ''<b>''
         [(''verifyExecution'', JBool True), (''browser'', JStr ''firefox'')]"
proof -
  let ?a = "[(''browser'', JStr ''firefox''), (''timeout'', JNum 1000)]"
  let ?b = "[(''logging'', JObj [(''verbose'', JBool True)]), (''browser'', JStr ''firefox'')]"
  let ?c = "[(''browser'', JStr ''firefox''), (''verifyExecution'', JBool True)]"
  let ?d = "[(''verifyExecution'', JBool True), (''browser'', JStr ''firefox'')]"
  have agree: "\<forall>k \<in> {''browser'', ''verifyExecution'', ''submitSelector''}. js_get ?a k = js_get ?b k"
    by (simp add: js_get_def)
  have perm: "distinct (map fst ?c) \<and> distinct (map fst ?d) \<and> set ?c = set ?d"
    by auto
  from generateCacheKey_relevant_only [of ?a ?b "\<lambda>v. ''json''" "\<lambda>s. s" "''http://t/''" "''#q''" "''<b>''"]
    agree
  have 1: "generateCacheKey (\<lambda>v. ''json'') (\<lambda>s. s) ''http://t/'' ''#q'' ''<b>'' ?a
     = generateCacheKey (\<lambda>v. ''json'') (\<lambda>s. s) ''http://t/'' ''#q'' ''<b>'' ?b"
    by blast
  from generateCacheKey_relevant_only [of ?c ?d "\<lambda>v. ''json''" "\<lambda>s. s" "''http://t/''" "''#q''" "''<b>''"]
    perm
  have 2: "generateCacheKey (\<lambda>v. ''json'') (\<lambda>s. s) ''http://t/'' ''#q'' ''<b>'' ?c
     = generateCacheKey (\<lambda>v. ''json'') (\<lambda>s. s) ''http://t/'' ''#q'' ''<b>'' ?d"
    by blast
  have 0: "js_get ?a ''browser'' = js_get ?b ''browser''" by (simp add: js_get_def)
  from 0 1 2 show ?thesis by blast
qed

section \<open>Properties of \<^verbatim>\<open>detectXSSParallel\<close>\<close>

lemma js_slice_batch:
  assumes "1 \<le> c" "i < length xs"
  shows "js_slice xs (int i) (int i + c) = take (nat c) (drop i xs)"
  using assms by (auto simp: js_slice_def Let_def min_def)

lemma run_batch_outcomes:
  assumes "i + length batch \<le> length cfgs" "batch = take (length batch) (drop i cfgs)"
  shows "run_batch D opts (int i) batch = batch_outcomes D opts cfgs (map int [i ..< i + length batch])"
proof (rule nth_equalityI)
  show "length (run_batch D opts (int i) batch) = length (batch_outcomes D opts cfgs (map int [i ..< i + length batch]))"
    by (simp add: run_batch_def batch_outcomes_def)
next
  fix k assume "k < length (run_batch D opts (int i) batch)"
  then have k: "k < length batch" by (simp add: run_batch_def)
  have "batch ! k = cfgs ! (i + k)"
    using assms k by (metis nth_take nth_drop add_leD1)
  then show "run_batch D opts (int i) batch ! k = batch_outcomes D opts cfgs (map int [i ..< i + length batch]) ! k"
    using k by (simp add: run_batch_def batch_outcomes_def nth_enumerate_eq nat_add_distrib)
qed


lemma chunks_step:
  "0 < c \<Longrightarrow> i < n \<Longrightarrow>
   chunks c (map int [i ..< n]) = map int [i ..< min (i + c) n] # chunks c (map int [i + c ..< n])"
proof -
  assume c: "0 < c" and i: "i < n"
  have t: "take c (map int [i ..< n]) = map int [i ..< min (i + c) n]"
  proof (cases "i + c \<le> n")
    case True
    then show ?thesis by (simp add: take_map min_def)
  next
    case False
    then have "take c [i ..< n] = [i ..< n]" by simp
    with False show ?thesis by (simp add: take_map min_def)
  qed
  have d: "drop c (map int [i ..< n]) = map int [i + c ..< n]"
    by (simp add: drop_map drop_upt)
  show ?thesis
    using c i by (subst chunks.simps) (simp add: t d)
qed

lemma chunks_done: "n \<le> i \<Longrightarrow> chunks c (map int [i ..< n]) = []"
  by (subst chunks.simps) simp

lemma list_ex_batch_outcomes:
  "set b \<subseteq> {0 ..< int (length cfgs)} \<Longrightarrow>
   list_ex snd (batch_outcomes D opts cfgs b)
     = (stopOnFirstVulnerability opts \<and> (\<exists>k \<in> set b. vulnerable D cfgs k))"
  by (induction b)
     (auto simp: batch_outcomes_def run_test_def vulnerable_def split: sum.splits)


lemma list_ex_batch_vulnerable:
  "set b \<subseteq> {0 ..< int (length cfgs)} \<Longrightarrow>
   list_ex snd (batch_outcomes D opts cfgs b)
     = (stopOnFirstVulnerability opts \<and> batch_vulnerable D cfgs b)"
  unfolding batch_vulnerable_def list_ex_batch_outcomes by (simp add: list_ex_iff)

lemma chunks_Nil [simp]: "chunks c [] = []"
  by (subst chunks.simps) simp

lemma expected_batches_done:
  "length cfgs \<le> i \<Longrightarrow> expected_batches_from D opts cfgs i = []"
  by (simp add: expected_batches_from_def)

lemma expected_batches_step:
  assumes "1 \<le> concurrency opts" "i < length cfgs"
  defines "b \<equiv> map int [i ..< min (i + nat (concurrency opts)) (length cfgs)]"
  shows "expected_batches_from D opts cfgs i =
     b # (if stopOnFirstVulnerability opts \<and> batch_vulnerable D cfgs b then []
          else expected_batches_from D opts cfgs (i + nat (concurrency opts)))"
  using assms by (simp add: expected_batches_from_def chunks_step Let_def)

lemma batch_loop_spec:
  assumes c: "1 \<le> concurrency opts"
  shows "batch_loop D opts cfgs (int i) acc seen =
     Some (acc @ concat (map (\<lambda>b. push_until_stop (batch_outcomes D opts cfgs b))
                          (expected_batches_from D opts cfgs i)),
           seen @ expected_batches_from D opts cfgs i)"
proof (induction "length cfgs - i" arbitrary: i acc seen rule: less_induct)
  case less
  show ?case
  proof (cases "i < length cfgs")
    case False
    then show ?thesis
      by (subst batch_loop.simps) (simp add: expected_batches_done)
  next
    case True
    define n where "n = length cfgs"
    define k where "k = nat (concurrency opts)"
    define batch where "batch = js_slice cfgs (int i) (int i + concurrency opts)"
    define b where "b = map int [i ..< min (i + k) n]"
    have k: "0 < k" "concurrency opts = int k" using c by (simp_all add: k_def)
    have batch: "batch = take k (drop i cfgs)"
      using c True by (simp add: batch_def k_def js_slice_batch)
    have len: "length batch = min (i + k) n - i"
      using True by (auto simp: batch n_def min_def)
    have "i + length batch \<le> length cfgs" "batch = take (length batch) (drop i cfgs)"
      using True by (auto simp: batch min_def)
    moreover have "i + length batch = min (i + k) n"
      using True by (simp add: len n_def)
    ultimately have run: "run_batch D opts (int i) batch = batch_outcomes D opts cfgs b"
      using run_batch_outcomes [of i batch cfgs D opts] by (simp add: b_def)
    have idx: "map (\<lambda>(result, stopTesting). testInfo_index result) (batch_outcomes D opts cfgs b) = b"
      by (induction b) (auto simp: batch_outcomes_def run_test_def split: sum.splits)
    have sub: "set b \<subseteq> {0 ..< int (length cfgs)}"
      by (auto simp: b_def n_def)
    have hit: "list_ex snd (batch_outcomes D opts cfgs b)
       = (stopOnFirstVulnerability opts \<and> batch_vulnerable D cfgs b)"
      using sub by (rule list_ex_batch_vulnerable)
    have step: "expected_batches_from D opts cfgs i =
       b # (if stopOnFirstVulnerability opts \<and> batch_vulnerable D cfgs b then []
            else expected_batches_from D opts cfgs (i + k))"
      unfolding b_def k_def n_def by (rule expected_batches_step [OF c True])
    have next_i: "int i + concurrency opts = int (i + k)" using k by simp
    have unfold: "batch_loop D opts cfgs (int i) acc seen =
        (if list_ex snd (batch_outcomes D opts cfgs b)
         then Some (acc @ push_until_stop (batch_outcomes D opts cfgs b), seen @ [b])
         else batch_loop D opts cfgs (int (i + k))
                (acc @ push_until_stop (batch_outcomes D opts cfgs b)) (seen @ [b]))"
      apply (subst batch_loop.simps)
      apply (simp only: batch_def [symmetric] Let_def)
      apply (simp only: run idx next_i)
      using True apply simp
      done
    show ?thesis
    proof (cases "stopOnFirstVulnerability opts \<and> batch_vulnerable D cfgs b")
      case stop: True
      have yes: "list_ex snd (batch_outcomes D opts cfgs b)"
        using stop hit by simp
      show ?thesis
        using stop yes by (auto simp add: unfold step simp del: of_nat_add)
    next
      case go: False
      have nostop: "push_until_stop xs = map fst xs" if "\<not> list_ex snd xs" for xs :: "('r job_result \<times> bool) list"
        using that by (induction xs) auto
      have ih: "batch_loop D opts cfgs (int (i + k)) acc' seen' =
         Some (acc' @ concat (map (\<lambda>b. push_until_stop (batch_outcomes D opts cfgs b))
                          (expected_batches_from D opts cfgs (i + k))),
           seen' @ expected_batches_from D opts cfgs (i + k))" for acc' seen'
        using True k by (intro less) simp
      have no: "\<not> list_ex snd (batch_outcomes D opts cfgs b)"
        using go hit by simp
      show ?thesis
        using go no by (auto simp add: unfold step ih simp del: of_nat_add)
    qed
  qed
qed


lemma chunks_rec:
  "0 < c \<Longrightarrow> xs \<noteq> [] \<Longrightarrow> chunks c xs = take c xs # chunks c (drop c xs)"
  by (subst chunks.simps) simp

lemma concat_chunks: "0 < c \<Longrightarrow> concat (chunks c xs) = xs"
proof (induction "length xs" arbitrary: xs rule: less_induct)
  case less
  show ?case
  proof (cases "xs = []")
    case True then show ?thesis by simp
  next
    case False
    have "concat (chunks c (drop c xs)) = drop c xs"
      using less.prems False by (intro less) simp_all
    then show ?thesis using less.prems False by (simp add: chunks_rec)
  qed
qed

lemma chunks_sizes:
  "0 < c \<Longrightarrow> chunks c xs = bs @ [b] \<Longrightarrow> (\<forall>x \<in> set bs. length x = c) \<and> 0 < length b \<and> length b \<le> c"
proof (induction "length xs" arbitrary: xs bs rule: less_induct)
  case less
  have ne: "xs \<noteq> []" using less.prems by auto
  then have eq: "take c xs # chunks c (drop c xs) = bs @ [b]"
    using less.prems by (simp add: chunks_rec)
  show ?case
  proof (cases bs)
    case Nil
    then show ?thesis using eq ne less.prems(1) by auto
  next
    case (Cons x bs')
    then have x: "x = take c xs" and rest: "chunks c (drop c xs) = bs' @ [b]"
      using eq by simp_all
    have "drop c xs \<noteq> []" using rest by auto
    then have "length x = c" using x by simp
    moreover have "(\<forall>x \<in> set bs'. length x = c) \<and> 0 < length b \<and> length b \<le> c"
      using less.prems(1) ne rest by (intro less(1) [of "drop c xs"]) simp_all
    ultimately show ?thesis using Cons by simp
  qed
qed

lemma upto_first_hit_prefix: "\<exists>rest. xs = upto_first_hit P xs @ rest"
  by (induction xs) auto

lemma upto_first_hit_butlast: "x \<in> set (butlast (upto_first_hit P xs)) \<Longrightarrow> \<not> P x"
  by (induction xs) (auto split: if_splits)

lemma upto_first_hit_last:
  "upto_first_hit P xs = xs \<or> (upto_first_hit P xs \<noteq> [] \<and> P (last (upto_first_hit P xs)))"
  by (induction xs) auto

lemma upto_first_hit_nonempty [simp]: "(upto_first_hit P xs = []) = (xs = [])"
  by (cases xs) auto


lemma chunks_all_sizes:
  assumes "0 < c" "b \<in> set (chunks c xs)"
  shows "0 < length b \<and> length b \<le> c"
proof -
  from assms(2) have ne: "chunks c xs \<noteq> []" by auto
  then have "chunks c xs = butlast (chunks c xs) @ [last (chunks c xs)]" by simp
  from chunks_sizes [OF assms(1) this]
  have A: "\<forall>x \<in> set (butlast (chunks c xs)). length x = c"
    and B: "0 < length (last (chunks c xs)) \<and> length (last (chunks c xs)) \<le> c"
    by blast+
  have "set (chunks c xs) = set (butlast (chunks c xs)) \<union> {last (chunks c xs)}"
    using ne by (subst append_butlast_last_id [OF ne, symmetric]) (simp del: append_butlast_last_id)
  then have "b \<in> set (butlast (chunks c xs)) \<or> b = last (chunks c xs)"
    using assms(2) by blast
  then show ?thesis using A B assms(1) by auto
qed

lemma chunks_butlast_full:
  assumes "0 < c" "b \<in> set (butlast (chunks c xs))"
  shows "length b = c"
proof -
  from assms(2) have ne: "chunks c xs \<noteq> []" by auto
  then have "chunks c xs = butlast (chunks c xs) @ [last (chunks c xs)]" by simp
  from chunks_sizes [OF assms(1) this] assms(2) show ?thesis by blast
qed

lemma butlast_prefix_subset: "xs = ys @ zs \<Longrightarrow> set (butlast ys) \<subseteq> set (butlast xs)"
  by (auto simp: butlast_append dest: in_set_butlastD)

text \<open>
  Claim C8. With \<open>1 \<le> concurrency\<close> and a non-empty job list, \<^verbatim>\<open>detectXSSParallel\<close> returns,
  and the batches it awaits are the contiguous batches of \<^verbatim>\<open>concurrency\<close> jobs each, in order
  (the last one possibly shorter), every job of an awaited batch having settled; without
  \<^verbatim>\<open>stopOnFirstVulnerability\<close> these are all the batches, with it they are the batches up
  to and including the first one holding a job that found something: no batch before the
  last awaited one holds such a job, and the jobs skipped are skipped only for that reason.
\<close>

theorem detectXSSParallel_batches:
  assumes "1 \<le> concurrency opts" and "testConfigs \<noteq> []"
  shows "\<exists>results settled.
      detectXSSParallel detectXSS opts testConfigs = Some (Inr (results, settled))
    \<and> settled =
        (if stopOnFirstVulnerability opts
         then upto_first_hit (batch_vulnerable detectXSS testConfigs)
                (chunks (nat (concurrency opts)) (map int [0 ..< length testConfigs]))
         else chunks (nat (concurrency opts)) (map int [0 ..< length testConfigs]))
    \<and> (\<exists>rest. map int [0 ..< length testConfigs] = concat settled @ rest)
    \<and> (\<forall>b \<in> set (butlast settled). length b = nat (concurrency opts)
          \<and> \<not> (stopOnFirstVulnerability opts \<and> batch_vulnerable detectXSS testConfigs b))
    \<and> settled \<noteq> [] \<and> 0 < length (last settled) \<and> length (last settled) \<le> nat (concurrency opts)
    \<and> (concat settled = map int [0 ..< length testConfigs]
        \<or> (stopOnFirstVulnerability opts \<and> batch_vulnerable detectXSS testConfigs (last settled)))"
proof -
  define c where "c = nat (concurrency opts)"
  define all_batches where "all_batches = chunks c (map int [0 ..< length testConfigs])"
  define settled where "settled = expected_batches_from detectXSS opts testConfigs 0"
  define results where "results =
     concat (map (\<lambda>b. push_until_stop (batch_outcomes detectXSS opts testConfigs b)) settled)"
  have c: "0 < c" using assms(1) by (simp add: c_def)
  have run: "detectXSSParallel detectXSS opts testConfigs = Some (Inr (results, settled))"
    using assms(2) batch_loop_spec [OF assms(1), of detectXSS testConfigs 0 "[]" "[]"]
    by (simp add: detectXSSParallel_def results_def settled_def)
  have settled: "settled =
        (if stopOnFirstVulnerability opts
         then upto_first_hit (batch_vulnerable detectXSS testConfigs) all_batches else all_batches)"
    by (simp add: settled_def expected_batches_from_def all_batches_def c_def)
  have all: "concat all_batches = map int [0 ..< length testConfigs]"
    using c by (simp add: all_batches_def concat_chunks)
  have all_ne: "all_batches \<noteq> []"
    using all assms(2) by auto
  have "\<exists>rest. all_batches = settled @ rest"
  proof (cases "stopOnFirstVulnerability opts")
    case True
    then show ?thesis
      using upto_first_hit_prefix [of all_batches "batch_vulnerable detectXSS testConfigs"]
      by (simp add: settled)
  next
    case False
    then show ?thesis by (simp add: settled)
  qed
  then obtain rest where rest: "all_batches = settled @ rest" ..
  have ne: "settled \<noteq> []"
    using all_ne by (simp add: settled)
  have pre: "\<exists>rest. map int [0 ..< length testConfigs] = concat settled @ rest"
    using all rest by (metis concat_append)
  have full: "length b = c" if "b \<in> set (butlast settled)" for b
    using that butlast_prefix_subset [OF rest] chunks_butlast_full [OF c, of b]
    by (auto simp: all_batches_def)
  have nohit: "\<not> (stopOnFirstVulnerability opts \<and> batch_vulnerable detectXSS testConfigs b)"
    if "b \<in> set (butlast settled)" for b
    using that upto_first_hit_butlast [of b "batch_vulnerable detectXSS testConfigs" all_batches]
    by (auto simp: settled split: if_splits)
  have "last settled \<in> set all_batches"
    using ne rest by (metis last_in_set Un_iff set_append)
  then have last: "0 < length (last settled) \<and> length (last settled) \<le> c"
    using chunks_all_sizes [OF c] by (auto simp: all_batches_def)
  have why: "concat settled = map int [0 ..< length testConfigs]
        \<or> (stopOnFirstVulnerability opts \<and> batch_vulnerable detectXSS testConfigs (last settled))"
    using upto_first_hit_last [of "batch_vulnerable detectXSS testConfigs" all_batches] all
    by (auto simp: settled split: if_splits)
  have sizes: "\<forall>b \<in> set (butlast settled). length b = c
          \<and> \<not> (stopOnFirstVulnerability opts \<and> batch_vulnerable detectXSS testConfigs b)"
    using full nohit by blast
  show ?thesis
    unfolding c_def [symmetric] all_batches_def [symmetric]
    apply (rule exI [of _ results])
    apply (rule exI [of _ settled])
    apply (intro conjI)
    apply (rule run)
    apply (rule settled)
    apply (rule pre)
    apply (rule sizes)
    apply (rule ne)
    using last apply blast
    using last apply blast
    apply (rule why)
    done
qed


lemma push_until_stop_Cons:
  "push_until_stop (x # xs) = fst x # (if snd x then [] else push_until_stop xs)"
  by (cases x) simp

lemma push_until_stop_append_hit:
  "(\<forall>k \<in> set xs. \<not> snd (f k)) \<Longrightarrow> snd (f y) \<Longrightarrow>
   push_until_stop (map f (xs @ y # ys)) = map (\<lambda>k. fst (f k)) (xs @ [y])"
  by (induction xs) (simp_all add: push_until_stop_Cons)

lemma upt_split: "a \<le> b \<Longrightarrow> b \<le> d \<Longrightarrow> [a ..< d] = [a ..< b] @ [b ..< d]"
proof -
  assume ab: "a \<le> b" and "b \<le> d"
  then obtain k where d: "d = b + k" using le_Suc_ex by blast
  show ?thesis unfolding d by (rule upt_add_eq_append [OF ab])
qed

lemma push_until_stop_hit:
  assumes "i \<le> j" "j < m" "\<forall>k. i \<le> k \<and> k < j \<longrightarrow> \<not> snd (f k)" "snd (f j)"
  shows "push_until_stop (map f [i ..< m]) = map (\<lambda>k. fst (f k)) [i ..< Suc j]"
proof -
  have "[i ..< m] = [i ..< j] @ [j ..< m]"
    using assms(1,2) by (intro upt_split) simp_all
  also have "[j ..< m] = j # [Suc j ..< m]"
    using assms(2) by (rule upt_conv_Cons)
  finally have l: "[i ..< m] = [i ..< j] @ j # [Suc j ..< m]" .
  have r: "[i ..< Suc j] = [i ..< j] @ [j]"
    using assms(1) by simp
  have "\<forall>k \<in> set [i ..< j]. \<not> snd (f k)"
    using assms(3) by simp
  then show ?thesis
    unfolding l r using assms(4) by (rule push_until_stop_append_hit)
qed

lemma push_until_stop_nohit:
  "(\<forall>k \<in> set xs. \<not> snd (f k)) \<Longrightarrow> push_until_stop (map f xs) = map (\<lambda>k. fst (f k)) xs"
  by (induction xs) (simp_all add: push_until_stop_Cons)

lemma batch_outcomes_upt:
  "batch_outcomes D opts cfgs (map int [i ..< m])
     = map (\<lambda>k. run_test D opts (int k) (cfgs ! k)) [i ..< m]"
  by (simp add: batch_outcomes_def comp_def)

lemma snd_run_test:
  "k < length cfgs \<Longrightarrow>
   snd (run_test D opts (int k) (cfgs ! k)) = (stopOnFirstVulnerability opts \<and> vulnerable D cfgs (int k))"
  by (auto simp: run_test_def vulnerable_def split: sum.splits)

lemma batch_vulnerable_upt:
  "batch_vulnerable D cfgs (map int [i ..< m]) = (\<exists>k. i \<le> k \<and> k < m \<and> vulnerable D cfgs (int k))"
  unfolding batch_vulnerable_def list_ex_iff by (simp add: Bex_def image_iff) blast


lemma expected_first_hit:
  fixes opts :: parallel_options and cfgs :: "'c list"
  defines "c \<equiv> nat (concurrency opts)" and "n \<equiv> length cfgs"
  assumes c1: "1 \<le> concurrency opts"
    and stop: "stopOnFirstVulnerability opts"
    and vul: "vulnerable D cfgs (int j)"
    and first: "\<forall>k < j. \<not> vulnerable D cfgs (int k)"
    and le: "i \<le> j"
  shows "concat (map (\<lambda>b. push_until_stop (batch_outcomes D opts cfgs b))
                  (expected_batches_from D opts cfgs i))
           = map (\<lambda>k. fst (run_test D opts (int k) (cfgs ! k))) [i ..< Suc j]
       \<and> concat (expected_batches_from D opts cfgs i)
           = map int [i ..< min n (i + ((j - i) div c + 1) * c)]"
  using le
proof (induction "j - i" arbitrary: i rule: less_induct)
  case less
  define m where "m = min (i + c) n"
  have cpos: "0 < c" using c1 by (simp add: c_def)
  have jn: "j < n" using vul by (simp add: vulnerable_def n_def)
  have "i < n" using less.prems jn by simp
  then have step: "expected_batches_from D opts cfgs i =
     map int [i ..< m] # (if batch_vulnerable D cfgs (map int [i ..< m]) then []
          else expected_batches_from D opts cfgs (i + c))"
    using expected_batches_step [OF c1, of i cfgs D] stop
    by (simp add: c_def n_def m_def)
  show ?case
  proof (cases "j < i + c")
    case True
    then have jm: "j < m" using jn by (simp add: m_def)
    then have hit: "batch_vulnerable D cfgs (map int [i ..< m])"
      using vul less.prems by (auto simp: batch_vulnerable_upt)
    have "m \<le> n" by (simp add: m_def)
    then have "push_until_stop (batch_outcomes D opts cfgs (map int [i ..< m]))
        = map (\<lambda>k. fst (run_test D opts (int k) (cfgs ! k))) [i ..< Suc j]"
      unfolding batch_outcomes_upt
      using less.prems jm jn first vul stop
      by (intro push_until_stop_hit) (auto simp: snd_run_test n_def)
    then have res: "concat (map (\<lambda>b. push_until_stop (batch_outcomes D opts cfgs b))
                  (expected_batches_from D opts cfgs i))
           = map (\<lambda>k. fst (run_test D opts (int k) (cfgs ! k))) [i ..< Suc j]"
      unfolding step using hit by simp
    have "(j - i) div c = 0" using True less.prems by simp
    then have "min n (i + ((j - i) div c + 1) * c) = m"
      by (simp add: m_def min.commute)
    then have "concat (expected_batches_from D opts cfgs i)
           = map int [i ..< min n (i + ((j - i) div c + 1) * c)]"
      unfolding step using hit by simp
    with res show ?thesis by blast
  next
    case False
    then have ic: "i + c \<le> j" by simp
    then have m: "m = i + c" using jn by (simp add: m_def)
    define K where "K = ((j - (i + c)) div c + 1) * c"
    have nohit: "\<not> batch_vulnerable D cfgs (map int [i ..< m])"
      using first ic by (auto simp: batch_vulnerable_upt m)
    have "\<forall>k \<in> set [i ..< m]. \<not> snd (run_test D opts (int k) (cfgs ! k))"
      using first ic jn by (auto simp: m snd_run_test n_def)
    then have here: "push_until_stop (batch_outcomes D opts cfgs (map int [i ..< m]))
        = map (\<lambda>k. fst (run_test D opts (int k) (cfgs ! k))) [i ..< m]"
      unfolding batch_outcomes_upt by (rule push_until_stop_nohit)
    have "j - (i + c) < j - i" using ic cpos by simp
    from less(1) [OF this] ic
    have ih1: "concat (map (\<lambda>b. push_until_stop (batch_outcomes D opts cfgs b))
                  (expected_batches_from D opts cfgs (i + c)))
           = map (\<lambda>k. fst (run_test D opts (int k) (cfgs ! k))) [i + c ..< Suc j]"
      and ih2: "concat (expected_batches_from D opts cfgs (i + c))
           = map int [i + c ..< min n (i + c + K)]"
      unfolding K_def by blast+
    have "j - i = (j - (i + c)) + c" using ic by simp
    then have "(j - i) div c = ((j - (i + c)) + c) div c" by simp
    also have "\<dots> = (j - (i + c)) div c + 1" using cpos by (intro div_add_self2) simp
    finally have D1: "(j - i) div c = (j - (i + c)) div c + 1" .
    have "((j - i) div c + 1) * c = c + K"
      unfolding D1 K_def by (simp only: add_mult_distrib mult_1 add.commute)
    then have E: "i + ((j - i) div c + 1) * c = i + c + K" by (simp only: add.assoc)
    have split1: "[i ..< Suc j] = [i ..< m] @ [m ..< Suc j]"
      using ic unfolding m by (intro upt_split) simp_all
    have "i + c \<le> min n (i + c + K)"
      using jn ic by simp
    then have split2: "[i ..< min n (i + c + K)] = [i ..< m] @ [m ..< min n (i + c + K)]"
      unfolding m by (intro upt_split) simp_all
    have res: "concat (map (\<lambda>b. push_until_stop (batch_outcomes D opts cfgs b))
                  (expected_batches_from D opts cfgs i))
           = map (\<lambda>k. fst (run_test D opts (int k) (cfgs ! k))) [i ..< Suc j]"
      unfolding step split1 using nohit here ih1 by (simp add: m)
    have "concat (expected_batches_from D opts cfgs i) = map int [i ..< min n (i + c + K)]"
      unfolding step split2 using nohit ih2 by (simp add: m)
    with res show ?thesis unfolding E by blast
  qed
qed


text \<open>
  Claim C10. With \<^verbatim>\<open>stopOnFirstVulnerability\<close>, when job \<open>j\<close> is the first job whose result holds
  at least one finding, the returned array holds one entry for each of the jobs
  \<open>0, ..., j\<close>, in order, and nothing else. The entry of a job carries what \<^verbatim>\<open>detectXSS\<close>
  returned for it (its findings, or its error message with no finding); the last entry is
  that of job \<open>j\<close> and carries the findings that stopped the run. The jobs that settled are
  all the jobs up to the end of the batch of \<open>j\<close>: the later jobs of that batch ran, and
  their results are left out.
\<close>

theorem detectXSSParallel_stop_truncates:
  assumes "1 \<le> concurrency opts"
    and "stopOnFirstVulnerability opts"
    and "vulnerable detectXSS testConfigs (int j)"
    and "\<forall>k < j. \<not> vulnerable detectXSS testConfigs (int k)"
  shows "\<exists>results settled.
      detectXSSParallel detectXSS opts testConfigs = Some (Inr (results, settled))
    \<and> results = map (\<lambda>k. fst (run_test detectXSS opts (int k) (testConfigs ! k))) [0 ..< Suc j]
    \<and> map testInfo_index results = map int [0 ..< Suc j]
    \<and> map results_of results
        = map (\<lambda>k. case detectXSS (int k) (testConfigs ! k) of Inr rs \<Rightarrow> rs | Inl msg \<Rightarrow> [])
            [0 ..< Suc j]
    \<and> map error_of results
        = map (\<lambda>k. case detectXSS (int k) (testConfigs ! k) of
                     Inr rs \<Rightarrow> None | Inl msg \<Rightarrow> Some msg)
            [0 ..< Suc j]
    \<and> detectXSS (int j) (testConfigs ! j) = Inr (results_of (last results))
    \<and> results_of (last results) \<noteq> []
    \<and> testInfo_index (last results) = int j
    \<and> (\<forall>k < j. results_of (results ! k) = [])
    \<and> concat settled
        = map int [0 ..< min (length testConfigs)
                            ((j div nat (concurrency opts) + 1) * nat (concurrency opts))]"
proof -
  define settled where "settled = expected_batches_from detectXSS opts testConfigs 0"
  define results where "results =
     concat (map (\<lambda>b. push_until_stop (batch_outcomes detectXSS opts testConfigs b)) settled)"
  define entry where "entry = (\<lambda>k. fst (run_test detectXSS opts (int k) (testConfigs ! k)))"
  have "j < length testConfigs" using assms(3) by (simp add: vulnerable_def)
  then have ne: "testConfigs \<noteq> []" by auto
  have run: "detectXSSParallel detectXSS opts testConfigs = Some (Inr (results, settled))"
    using ne batch_loop_spec [OF assms(1), of detectXSS testConfigs 0 "[]" "[]"]
    by (simp add: detectXSSParallel_def results_def settled_def)
  from expected_first_hit [OF assms, of 0]
  have res: "results = map entry [0 ..< Suc j]"
    and set: "concat settled
        = map int [0 ..< min (length testConfigs)
                            ((j div nat (concurrency opts) + 1) * nat (concurrency opts))]"
    unfolding results_def settled_def entry_def by simp_all
  have "testInfo_index (entry k) = int k" for k
    by (simp add: entry_def run_test_def split: sum.splits)
  then have idx: "map testInfo_index results = map int [0 ..< Suc j]"
    unfolding res by (simp add: comp_def del: upt_Suc)
  have found: "results_of (entry k)
      = (case detectXSS (int k) (testConfigs ! k) of Inr rs \<Rightarrow> rs | Inl msg \<Rightarrow> [])" for k
    by (simp add: entry_def run_test_def split: sum.splits)
  then have findings: "map results_of results
        = map (\<lambda>k. case detectXSS (int k) (testConfigs ! k) of Inr rs \<Rightarrow> rs | Inl msg \<Rightarrow> [])
            [0 ..< Suc j]"
    unfolding res by (simp add: comp_def del: upt_Suc)
  have "error_of (entry k)
      = (case detectXSS (int k) (testConfigs ! k) of Inr rs \<Rightarrow> None | Inl msg \<Rightarrow> Some msg)" for k
    by (simp add: entry_def run_test_def split: sum.splits)
  then have errors: "map error_of results
        = map (\<lambda>k. case detectXSS (int k) (testConfigs ! k) of
                     Inr rs \<Rightarrow> None | Inl msg \<Rightarrow> Some msg)
            [0 ..< Suc j]"
    unfolding res by (simp add: comp_def del: upt_Suc)
  have last: "last results = entry j"
    unfolding res by simp
  obtain rs where rs: "detectXSS (int j) (testConfigs ! j) = Inr rs" "rs \<noteq> []"
    using assms(3) by (auto simp: vulnerable_def split: sum.splits)
  have hit: "detectXSS (int j) (testConfigs ! j) = Inr (results_of (last results))"
    and nonempty: "results_of (last results) \<noteq> []"
    and at: "testInfo_index (last results) = int j"
    using rs by (simp_all add: last found entry_def run_test_def)
  have before: "\<forall>k < j. results_of (results ! k) = []"
  proof (intro allI impI)
    fix k assume k: "k < j"
    then have "\<not> vulnerable detectXSS testConfigs (int k)" using assms(4) by simp
    moreover have "k < length testConfigs" using k \<open>j < length testConfigs\<close> by simp
    ultimately have "(case detectXSS (int k) (testConfigs ! k) of Inr rs \<Rightarrow> rs | Inl msg \<Rightarrow> []) = []"
      by (simp add: vulnerable_def split: sum.splits)
    moreover have "results ! k = entry k"
      unfolding res using k nth_map_upt [of k "Suc j" 0 entry] by simp
    ultimately show "results_of (results ! k) = []" by (simp add: found)
  qed
  show ?thesis
    using run res [unfolded entry_def] idx findings errors hit nonempty at before set by blast
qed

theorem detectXSSParallel_batches_witness:
  "1 \<le> concurrency \<lparr>concurrency = 2, stopOnFirstVulnerability = True\<rparr>
   \<and> [''a'', ''b'', ''v'', ''v'', ''e''] \<noteq> []
   \<and> (\<exists>results.
        detectXSSParallel (\<lambda>k c. if c = ''v'' then Inr [k] else Inr [])
          \<lparr>concurrency = 2, stopOnFirstVulnerability = True\<rparr> [''a'', ''b'', ''v'', ''v'', ''e'']
        = Some (Inr (results, [[0, 1], [2, 3]])))"
proof -
  let ?D = "\<lambda>(k::int) c. if c = ''v'' then Inr [k] else (Inr [] :: string + int list)"
  let ?opts = "\<lparr>concurrency = 2, stopOnFirstVulnerability = True\<rparr>"
  let ?cfgs = "[''a'', ''b'', ''v'', ''v'', ''e'']"
  have c: "1 \<le> concurrency ?opts" and ne: "?cfgs \<noteq> []" by simp_all
  have all: "chunks (nat (concurrency ?opts)) (map int [0 ..< length ?cfgs]) = [[0, 1], [2, 3], [4]]"
    by code_simp
  have hit: "upto_first_hit (batch_vulnerable ?D ?cfgs) [[0, 1], [2, 3], [4]] = [[0, 1], [2, 3]]"
    by (simp add: batch_vulnerable_def vulnerable_def)
  from detectXSSParallel_batches [OF c ne, of ?D]
  obtain results settled where
    "detectXSSParallel ?D ?opts ?cfgs = Some (Inr (results, settled))"
    "settled = upto_first_hit (batch_vulnerable ?D ?cfgs)
                (chunks (nat (concurrency ?opts)) (map int [0 ..< length ?cfgs]))"
    by auto
  then have "detectXSSParallel ?D ?opts ?cfgs = Some (Inr (results, [[0, 1], [2, 3]]))"
    unfolding all hit by simp
  with c ne show ?thesis by blast
qed

theorem detectXSSParallel_stop_truncates_witness:
  "vulnerable (\<lambda>k c. if c = ''v'' then Inr [k] else Inr []) [''a'', ''b'', ''v'', ''v'', ''e''] 2
   \<and> \<not> vulnerable (\<lambda>k c. if c = ''v'' then Inr [k] else Inr []) [''a'', ''b'', ''v'', ''v'', ''e''] 0
   \<and> \<not> vulnerable (\<lambda>k c. if c = ''v'' then Inr [k] else Inr []) [''a'', ''b'', ''v'', ''v'', ''e''] 1
   \<and> (\<exists>results settled.
        detectXSSParallel (\<lambda>k c. if c = ''v'' then Inr [k] else Inr [])
          \<lparr>concurrency = 2, stopOnFirstVulnerability = True\<rparr> [''a'', ''b'', ''v'', ''v'', ''e'']
        = Some (Inr (results, settled))
        \<and> map testInfo_index results = [0, 1, 2]
        \<and> map results_of results = [[], [], [2]]
        \<and> results_of (last results) = [2]
        \<and> concat settled = [0, 1, 2, 3])"
proof -
  let ?D = "\<lambda>(k::int) c. if c = ''v'' then Inr [k] else (Inr [] :: string + int list)"
  let ?opts = "\<lparr>concurrency = 2, stopOnFirstVulnerability = True\<rparr>"
  let ?cfgs = "[''a'', ''b'', ''v'', ''v'', ''e'']"
  have c: "1 \<le> concurrency ?opts" and stop: "stopOnFirstVulnerability ?opts" by simp_all
  have v2: "vulnerable ?D ?cfgs (int 2)" by (simp add: vulnerable_def)
  have v0: "\<not> vulnerable ?D ?cfgs 0" and v1: "\<not> vulnerable ?D ?cfgs 1"
    by (simp_all add: vulnerable_def)
  have first: "\<forall>k < 2. \<not> vulnerable ?D ?cfgs (int k)"
    using v0 v1 by (auto simp: less_2_cases_iff)
  from detectXSSParallel_stop_truncates [OF c stop v2 first]
  obtain results settled where
    "detectXSSParallel ?D ?opts ?cfgs = Some (Inr (results, settled))"
    "map testInfo_index results = map int [0 ..< Suc 2]"
    "map results_of results
        = map (\<lambda>k. case ?D (int k) (?cfgs ! k) of Inr rs \<Rightarrow> rs | Inl msg \<Rightarrow> []) [0 ..< Suc 2]"
    "?D (int 2) (?cfgs ! 2) = Inr (results_of (last results))"
    "concat settled = map int [0 ..< min (length ?cfgs)
                            ((2 div nat (concurrency ?opts) + 1) * nat (concurrency ?opts))]"
    by blast
  moreover have "map int [0 ..< Suc 2] = [0, 1, 2]" by code_simp
  moreover have "map (\<lambda>k. case ?D (int k) (?cfgs ! k) of Inr rs \<Rightarrow> rs | Inl msg \<Rightarrow> []) [0 ..< Suc 2]
      = [[], [], [2]]"
    by code_simp
  moreover have "?D (int 2) (?cfgs ! 2) = Inr [2]" by simp
  moreover have "map int [0 ..< min (length ?cfgs)
                            ((2 div nat (concurrency ?opts) + 1) * nat (concurrency ?opts))] = [0, 1, 2, 3]"
    by code_simp
  ultimately have "\<exists>results settled. detectXSSParallel ?D ?opts ?cfgs = Some (Inr (results, settled))
        \<and> map testInfo_index results = [0, 1, 2]
        \<and> map results_of results = [[], [], [2]]
        \<and> results_of (last results) = [2]
        \<and> concat settled = [0, 1, 2, 3]"
    by auto
  with v2 v0 v1 show ?thesis by simp
qed


section \<open>Properties of the diversity pass\<close>

lemma first_pass_step:
  "first_pass limit (p # ps) (res, c) =
     (if int (length res) \<ge> limit then (res, c)
      else case classify p c of
             None \<Rightarrow> first_pass limit ps (res, c)
           | Some b \<Rightarrow> first_pass limit ps (res @ [p], set_flag b c))"
  by (simp add: first_pass.simps(2) classify_def all_buckets_def)

lemma classify_Some: "classify p c = Some b \<Longrightarrow> bucket_matches b p \<and> \<not> flag b c"
  unfolding classify_def by (auto simp: find_Some_iff)

lemma all_buckets_complete: "b \<in> set all_buckets"
  by (cases b) (simp_all add: all_buckets_def)

lemma classify_None: "classify p c = None \<Longrightarrow> bucket_matches b p \<Longrightarrow> flag b c"
  unfolding classify_def find_None_iff using all_buckets_complete [of b] by blast

lemma flag_set_flag: "flag b' (set_flag b c) = (b' = b \<or> flag b' c)"
  by (cases b; cases b') auto

lemma count_set_flag: "\<not> flag b c \<Longrightarrow> count_flags (set_flag b c) = Suc (count_flags c)"
  by (cases b) (auto simp: count_flags_def all_buckets_def)

lemma count_flags_full: "7 \<le> count_flags c \<Longrightarrow> flag b c"
  by (cases b) (auto simp: count_flags_def all_buckets_def split: if_splits)


lemma first_pass_inv:
  assumes "\<forall>b. flag b c \<longrightarrow> (\<exists>p \<in> set res. bucket_matches b p)"
    and "length res = count_flags c"
  shows "first_pass_ok limit ps res (first_pass limit ps (res, c))"
  using assms
proof (induction ps arbitrary: res c)
  case Nil
  then show ?case by (simp add: first_pass_ok_def)
next
  case (Cons p ps)
  show ?case
  proof (cases "int (length res) \<ge> limit")
    case True
    then show ?thesis using Cons.prems by (simp add: first_pass_step first_pass_ok_def)
  next
    case False
    show ?thesis
    proof (cases "classify p c")
      case None
      have ih: "first_pass_ok limit ps res (first_pass limit ps (res, c))"
        using Cons.prems by (intro Cons.IH)
      have eq: "first_pass limit (p # ps) (res, c) = first_pass limit ps (res, c)"
        using False None by (simp add: first_pass_step)
      have "\<exists>q \<in> set (fst (first_pass limit ps (res, c))). bucket_matches b q"
        if "bucket_matches b p" for b
      proof -
        have "flag b c" using None that by (rule classify_None)
        then obtain q where "q \<in> set res" "bucket_matches b q" using Cons.prems(1) by blast
        moreover have "set res \<subseteq> set (fst (first_pass limit ps (res, c)))"
          using ih by (auto simp: first_pass_ok_def)
        ultimately show ?thesis by blast
      qed
      then show ?thesis
        using ih unfolding eq first_pass_ok_def by auto
    next
      case (Some b0)
      have b0: "bucket_matches b0 p" "\<not> flag b0 c"
        using classify_Some [OF Some] by simp_all
      have eq: "first_pass limit (p # ps) (res, c) = first_pass limit ps (res @ [p], set_flag b0 c)"
        using False Some by (simp add: first_pass_step)
      have ih: "first_pass_ok limit ps (res @ [p]) (first_pass limit ps (res @ [p], set_flag b0 c))"
      proof (intro Cons.IH)
        show "\<forall>b. flag b (set_flag b0 c) \<longrightarrow> (\<exists>q \<in> set (res @ [p]). bucket_matches b q)"
          using Cons.prems(1) b0(1) by (auto simp: flag_set_flag)
        show "length (res @ [p]) = count_flags (set_flag b0 c)"
          using Cons.prems(2) b0(2) by (simp add: count_set_flag)
      qed
      have sub: "p \<in> set (fst (first_pass limit ps (res @ [p], set_flag b0 c)))"
        using ih by (auto simp: first_pass_ok_def)
      have len: "int (length (res @ [p])) \<le> max (int (length res)) limit"
        using False by simp
      show ?thesis
        using ih sub len unfolding eq first_pass_ok_def
        by auto
    qed
  qed
qed


lemma second_pass_append: "\<exists>ys. second_pass limit ps res = res @ ys"
proof (induction ps arbitrary: res)
  case Nil
  then show ?case by simp
next
  case (Cons p ps)
  from Cons [of res] Cons [of "res @ [p]"] show ?case by auto
qed

lemma second_pass_length: "int (length (second_pass limit ps res)) \<le> max (int (length res)) limit"
proof (induction ps arbitrary: res)
  case Nil
  then show ?case by simp
next
  case (Cons p ps)
  from Cons [of res] Cons [of "res @ [p]"] show ?case by auto
qed

lemma js_slice_prefix: "0 \<le> limit \<Longrightarrow> js_slice xs 0 limit = take (nat limit) xs"
  by (auto simp: js_slice_def Let_def min_def)

lemma count_flags_le: "count_flags c \<le> 7"
proof -
  have "count_flags c \<le> length all_buckets"
    unfolding count_flags_def by (rule length_filter_le)
  then show ?thesis by (simp add: all_buckets_def)
qed

lemma representatives_ok:
  "first_pass_ok limit ps [] (first_pass limit ps ([], no_categories))"
  by (rule first_pass_inv) (auto simp: no_categories_def count_flags_def all_buckets_def, (case_tac b; simp)+)


lemma covered_all:
  assumes "\<forall>b. \<exists>p \<in> set xs. bucket_matches b p"
  shows "buckets_covered xs = all_buckets"
  unfolding buckets_covered_def using assms by (simp add: list_ex_iff)

lemma remdups_snoc: "remdups (ys @ [p]) = remdups (filter (\<lambda>q. q \<noteq> p) ys) @ [p]"
  by (induction ys) auto

lemma firsts_Cons: "firsts (p # xs) = p # firsts (filter (\<lambda>q. q \<noteq> p) xs)"
  by (simp add: firsts_def remdups_snoc rev_filter)

lemma fresh_Nil [simp]: "fresh taken [] = []"
  by (simp add: fresh_def firsts_def)

lemma fresh_Cons:
  "fresh taken (p # ps) = (if p \<in> set taken then fresh taken ps else p # fresh (taken @ [p]) ps)"
proof (cases "p \<in> set taken")
  case True
  then show ?thesis by (simp add: fresh_def)
next
  case False
  have "filter (\<lambda>q. q \<noteq> p) (filter (\<lambda>q. q \<notin> set taken) ps)
      = filter (\<lambda>q. q \<notin> set (taken @ [p])) ps"
    by (induction ps) auto
  with False show ?thesis by (simp add: fresh_def firsts_Cons)
qed

lemma second_pass_fresh:
  "second_pass limit ps res = res @ take (nat (limit - int (length res))) (fresh res ps)"
proof (induction ps arbitrary: res)
  case Nil
  then show ?case by simp
next
  case (Cons p ps)
  show ?case
  proof (cases "int (length res) \<ge> limit")
    case True
    then show ?thesis by simp
  next
    case False
    show ?thesis
    proof (cases "p \<in> set res")
      case True
      with False Cons show ?thesis by (simp add: fresh_Cons)
    next
      case new: False
      have k: "nat (limit - int (length res)) = Suc (nat (limit - int (length (res @ [p]))))"
        using False by simp
      have "second_pass limit (p # ps) res = second_pass limit ps (res @ [p])"
        using False new by simp
      also have "\<dots> = (res @ [p]) @ take (nat (limit - int (length (res @ [p]))))
                           (fresh (res @ [p]) ps)"
        by (rule Cons.IH)
      also have "\<dots> = res @ take (nat (limit - int (length res))) (fresh res (p # ps))"
        unfolding k using new by (simp add: fresh_Cons)
      finally show ?thesis .
    qed
  qed
qed

lemma gather_additional_contexts:
  "gather_additional gen limit n cs acc
     = acc @ concat (map gen (contexts_used gen (limit - int n - int (length acc)) cs))"
proof (induction cs arbitrary: acc)
  case Nil
  show ?case by simp
next
  case (Cons c cs)
  show ?case
  proof (cases "int (n + length acc) \<ge> limit")
    case True
    then show ?thesis by simp
  next
    case False
    have "limit - int n - int (length (acc @ gen c))
        = limit - int n - int (length acc) - int (length (gen c))"
      by simp
    with False Cons [of "acc @ gen c"] show ?thesis by (simp add: algebra_simps)
  qed
qed

lemma length_filter_mono:
  "(\<And>x. x \<in> set xs \<Longrightarrow> P x \<Longrightarrow> Q x) \<Longrightarrow> length (filter P xs) \<le> length (filter Q xs)"
  by (induction xs) auto

lemma buckets_covered_mono:
  "(\<And>b. list_ex (bucket_matches b) xs \<Longrightarrow> list_ex (bucket_matches b) ys) \<Longrightarrow>
   length (buckets_covered xs) \<le> length (buckets_covered ys)"
  unfolding buckets_covered_def by (rule length_filter_mono)


lemma take_prefix: "length xs \<le> n \<Longrightarrow> take n (xs @ ys) = xs @ take (n - length xs) ys"
  by simp

lemma flags_covered:
  assumes "first_pass_ok limit ps res out"
  shows "count_flags (snd out) \<le> length (buckets_covered (fst out))"
  unfolding count_flags_def buckets_covered_def
proof (rule length_filter_mono)
  fix b assume "flag b (snd out)"
  then show "list_ex (bucket_matches b) (fst out)"
    using assms by (simp add: first_pass_ok_def list_ex_iff)
qed

text \<open>
  Claim C9, as the code has it. \<^verbatim>\<open>selectSmartPayloads\<close> returns at most \<^verbatim>\<open>limit\<close> payloads.
  The first 7 payloads returned cover at least as many buckets as the smaller of \<^verbatim>\<open>limit\<close>
  and the number of buckets that some candidate matches; so they cover at least 6 buckets
  when \<^verbatim>\<open>limit\<close> is at least 6 and each of the seven buckets is matched by some candidate.
  The payloads returned are the representatives picked by the first pass, then the other
  candidates in ranked order, then the payloads of the other contexts that are not yet
  there, as many contexts as needed to fill the missing slots, all cut at \<^verbatim>\<open>limit\<close>.
\<close>

theorem selectSmartPayloads_diversity:
  "length (selectSmartPayloads_diversify generatePayloads CONTEXT_TYPES contextType payloads limit)
     \<le> nat limit
   \<and> min (nat limit) (length (buckets_covered payloads))
       \<le> length (buckets_covered (take 7 (selectSmartPayloads_diversify generatePayloads
                                    CONTEXT_TYPES contextType payloads limit)))
   \<and> (6 \<le> limit \<and> (\<forall>b. \<exists>p \<in> set payloads. bucket_matches b p) \<longrightarrow>
        6 \<le> length (buckets_covered (take 7 (selectSmartPayloads_diversify generatePayloads
                                    CONTEXT_TYPES contextType payloads limit))))
   \<and> selectSmartPayloads_diversify generatePayloads CONTEXT_TYPES contextType payloads limit
       = take (nat limit)
           (ranked payloads limit
              @ fresh (ranked payloads limit)
                  (top_up generatePayloads CONTEXT_TYPES contextType
                     (limit - int (length (ranked payloads limit)))))"
proof -
  define reps where "reps = representatives payloads limit"
  define F where "F = fresh reps payloads"
  define D where "D = ensureDiversity payloads limit"
  define others where "others = filter (\<lambda>c. c \<noteq> contextType) CONTEXT_TYPES"
  define additional where "additional =
     gather_additional generatePayloads limit (length D) others []"
  define D' where "D' = (if int (length D) < limit then second_pass limit additional D else D)"
  define res where
    "res = selectSmartPayloads_diversify generatePayloads CONTEXT_TYPES contextType payloads limit"
  define T where "T = top_up generatePayloads CONTEXT_TYPES contextType
                        (limit - int (length (reps @ F)))"
  have res: "res = js_slice D' 0 limit"
    by (simp add: res_def selectSmartPayloads_diversify_def Let_def D'_def D_def additional_def
          others_def)
  have D: "D = reps @ take (nat (limit - int (length reps))) F"
    by (simp add: D_def ensureDiversity_def reps_def representatives_def second_pass_fresh F_def)
  have ok: "first_pass_ok limit payloads [] (reps, snd (first_pass limit payloads ([], no_categories)))"
    using representatives_ok [of limit payloads] by (simp add: reps_def representatives_def)
  have reps_len: "int (length reps) \<le> max 0 limit" and reps7: "length reps \<le> 7"
    using ok count_flags_le by (auto simp: first_pass_ok_def)
  have D_len: "int (length D) \<le> max 0 limit"
    using reps_len by (auto simp: D)
  have D'_len: "int (length D') \<le> max 0 limit"
    using second_pass_length [of limit additional D] D_len by (auto simp: D'_def)
  define L where "L = nat limit"
  define k where "k = nat (limit - int (length reps))"
  have Dk: "D = reps @ take k F" by (simp add: D k_def)
  have order: "res = take L ((reps @ F) @ fresh (reps @ F) T)"
  proof (cases "0 \<le> limit")
    case False
    then have "D' = []" using D'_len by simp
    then show ?thesis using False by (simp add: res js_slice_def L_def)
  next
    case nonneg: True
    have resL: "res = take L D'"
      using nonneg by (simp add: res js_slice_prefix L_def)
    have n: "L = length reps + k"
      using nonneg reps_len by (simp add: L_def k_def)
    have lim: "limit = int L"
      using nonneg by (simp add: L_def)
    show ?thesis
    proof (cases "int (length D) < limit")
      case short: True
      then have "length D < L" by (simp add: lim)
      then have "length (take k F) < k" by (simp add: Dk n)
      then have all: "take k F = F" by simp
      then have DF: "D = reps @ F" by (simp add: Dk)
      define j where "j = nat (limit - int (length (reps @ F)))"
      have Lj: "L = length (reps @ F) + j"
        using \<open>length D < L\<close> by (simp add: j_def lim DF)
      have "additional = gather_additional generatePayloads limit (length (reps @ F)) others []"
        by (simp add: additional_def DF)
      also have "\<dots> = T"
        unfolding gather_additional_contexts T_def top_up_def others_def by simp
      finally have "additional = T" .
      then have "D' = second_pass limit T (reps @ F)"
        using short by (simp add: D'_def DF)
      also have "\<dots> = (reps @ F) @ take j (fresh (reps @ F) T)"
        unfolding second_pass_fresh j_def ..
      also have "\<dots> = take L ((reps @ F) @ fresh (reps @ F) T)"
        unfolding Lj by simp
      finally have "D' = take L ((reps @ F) @ fresh (reps @ F) T)" .
      then show ?thesis unfolding resL by (simp only: take_take min.idem)
    next
      case False
      then have "L \<le> length D" by (simp add: lim)
      then have "L \<le> length (reps @ F)" by (simp add: Dk)
      have "D' = reps @ take k F" using False by (simp add: D'_def Dk)
      also have "\<dots> = take L (reps @ F)" unfolding n by simp
      also have "\<dots> = take L ((reps @ F) @ fresh (reps @ F) T)"
        using \<open>L \<le> length (reps @ F)\<close> by simp
      finally have "D' = take L ((reps @ F) @ fresh (reps @ F) T)" .
      then show ?thesis unfolding resL by (simp only: take_take min.idem)
    qed
  qed
  have bound: "length res \<le> nat limit"
    unfolding order L_def by simp
  have cover: "min (nat limit) (length (buckets_covered payloads))
       \<le> length (buckets_covered (take 7 res))"
  proof (cases "0 \<le> limit")
    case False
    then show ?thesis by simp
  next
    case nonneg: True
    have "length reps \<le> L"
      using reps_len nonneg by (simp add: L_def)
    then have M: "length reps \<le> min 7 L"
      using reps7 by simp
    have "take 7 res = take (min 7 L) (reps @ (F @ fresh (reps @ F) T))"
      unfolding order by (simp only: take_take append_assoc)
    also have "\<dots> = reps @ take (min 7 L - length reps) (F @ fresh (reps @ F) T)"
      using M by (rule take_prefix)
    finally have "take 7 res = reps @ take (min 7 L - length reps) (F @ fresh (reps @ F) T)" .
    then have sub: "set reps \<subseteq> set (take 7 res)" by simp
    have up: "length (buckets_covered reps) \<le> length (buckets_covered (take 7 res))"
      by (rule buckets_covered_mono) (use sub in \<open>auto simp: list_ex_iff\<close>)
    have "min (nat limit) (length (buckets_covered payloads)) \<le> length (buckets_covered reps)"
    proof (cases "limit \<le> int (length reps)")
      case True
      have "nat limit \<le> count_flags (snd (first_pass limit payloads ([], no_categories)))"
        using True ok by (simp add: first_pass_ok_def)
      also have "\<dots> \<le> length (buckets_covered reps)"
        using flags_covered [OF ok] by simp
      finally show ?thesis by simp
    next
      case False
      have "length (buckets_covered payloads) \<le> length (buckets_covered reps)"
        by (rule buckets_covered_mono) (use False ok in \<open>auto simp: first_pass_ok_def list_ex_iff\<close>)
      then show ?thesis by simp
    qed
    with up show ?thesis by simp
  qed
  have six: "6 \<le> length (buckets_covered (take 7 res))"
    if "6 \<le> limit" and "\<forall>b. \<exists>p \<in> set payloads. bucket_matches b p"
  proof -
    have "buckets_covered payloads = all_buckets" using that(2) by (rule covered_all)
    then have "length (buckets_covered payloads) = 7" by (simp add: all_buckets_def)
    moreover have "6 \<le> nat limit" using that(1) by simp
    ultimately show ?thesis using cover by linarith
  qed
  have r: "reps @ F = ranked payloads limit"
    by (simp add: ranked_def reps_def F_def)
  have order': "res = take (nat limit)
           (ranked payloads limit
              @ fresh (ranked payloads limit)
                  (top_up generatePayloads CONTEXT_TYPES contextType
                     (limit - int (length (ranked payloads limit)))))"
    using order unfolding T_def L_def r .
  have six': "6 \<le> limit \<and> (\<forall>b. \<exists>p \<in> set payloads. bucket_matches b p) \<longrightarrow>
        6 \<le> length (buckets_covered (take 7 res))"
    using six by blast
  show ?thesis
    unfolding res_def [symmetric]
    using bound cover six' order' by (intro conjI)
qed

text \<open>
  Claim C9 as stated fails for a small limit: with seven candidates, one per bucket, and
  \<^verbatim>\<open>limit = 3\<close>, the payloads returned are the first three and cover three buckets.
\<close>

theorem selectSmartPayloads_small_limit_counterexample:
  "buckets_covered seven_payloads = all_buckets
   \<and> selectSmartPayloads_diversify no_payloads [''html'', ''js''] ''html'' seven_payloads 3
       = [''<script>alert(1)</script>'', ''<img src=x>'', ''<svg>'']
   \<and> buckets_covered
         (take 7 (selectSmartPayloads_diversify no_payloads [''html'', ''js''] ''html'' seven_payloads 3))
       = [Script, Img, Svg]
   \<and> \<not> 6 \<le> length (buckets_covered
         (take 7 (selectSmartPayloads_diversify no_payloads [''html'', ''js''] ''html'' seven_payloads 3)))"
  by code_simp

theorem selectSmartPayloads_diversity_witness:
  "(6::int) \<le> 6
   \<and> buckets_covered seven_payloads = all_buckets
   \<and> selectSmartPayloads_diversify js_context_payloads [''html'', ''js''] ''html'' seven_payloads 6
       = [''<script>alert(1)</script>'', ''<img src=x>'', ''<svg>'', ''<iframe src=x>'',
          ''x onerror=alert(1)'', [CHR 0x22, CHR ''>'']]
   \<and> 6 \<le> length (buckets_covered
         (take 7 (selectSmartPayloads_diversify js_context_payloads [''html'', ''js''] ''html''
                    seven_payloads 6)))
   \<and> selectSmartPayloads_diversify js_context_payloads [''html'', ''js''] ''html'' seven_payloads 9
       = seven_payloads @ [''alert(1)'']
   \<and> take (nat 9)
         (ranked seven_payloads 9
            @ fresh (ranked seven_payloads 9)
                (top_up js_context_payloads [''html'', ''js''] ''html''
                   (9 - int (length (ranked seven_payloads 9)))))
       = seven_payloads @ [''alert(1)'']"
proof -
  have cov: "buckets_covered seven_payloads = all_buckets" by code_simp
  have "list_ex (bucket_matches b) seven_payloads" for b
  proof -
    have "b \<in> set (buckets_covered seven_payloads)"
      unfolding cov by (rule all_buckets_complete)
    then show ?thesis by (simp add: buckets_covered_def)
  qed
  then have avail: "\<forall>b. \<exists>p \<in> set seven_payloads. bucket_matches b p"
    by (simp add: list_ex_iff)
  have le: "(6::int) \<le> 6" by simp
  have six: "selectSmartPayloads_diversify js_context_payloads [''html'', ''js''] ''html''
        seven_payloads 6
       = [''<script>alert(1)</script>'', ''<img src=x>'', ''<svg>'', ''<iframe src=x>'',
          ''x onerror=alert(1)'', [CHR 0x22, CHR ''>'']]"
    by code_simp
  have nine: "selectSmartPayloads_diversify js_context_payloads [''html'', ''js''] ''html''
        seven_payloads 9
       = seven_payloads @ [''alert(1)'']"
    by code_simp
  from selectSmartPayloads_diversity [of js_context_payloads "[''html'', ''js'']" "''html''"
      seven_payloads 6] avail le
  have covered: "6 \<le> length (buckets_covered
         (take 7 (selectSmartPayloads_diversify js_context_payloads [''html'', ''js''] ''html''
                    seven_payloads 6)))"
    by blast
  from selectSmartPayloads_diversity [of js_context_payloads "[''html'', ''js'']" "''html''"
      seven_payloads 9]
  have "selectSmartPayloads_diversify js_context_payloads [''html'', ''js''] ''html''
        seven_payloads 9
      = take (nat 9)
         (ranked seven_payloads 9
            @ fresh (ranked seven_payloads 9)
                (top_up js_context_payloads [''html'', ''js''] ''html''
                   (9 - int (length (ranked seven_payloads 9)))))"
    by blast
  with nine have topped: "take (nat 9)
         (ranked seven_payloads 9
            @ fresh (ranked seven_payloads 9)
                (top_up js_context_payloads [''html'', ''js''] ''html''
                   (9 - int (length (ranked seven_payloads 9)))))
       = seven_payloads @ [''alert(1)'']"
    by simp
  from cov six covered nine topped show ?thesis by simp
qed

section \<open>Properties of \<^verbatim>\<open>releasePage\<close>\<close>

lemma replicate6: "replicate 6 n = [n, n, n, n, n, n]"
  by (simp add: numeral_eq_Suc)

lemma release_step_task:
  "i < length (pending st) \<Longrightarrow> pending st ! i = (sessionId, page, pc) \<Longrightarrow>
   release_step io st i =
     (fst (release_resume io st sessionId page pc))
       \<lparr>pending := (pending (fst (release_resume io st sessionId page pc)))
                   [i := (sessionId, page, snd (release_resume io st sessionId page pc))]\<rparr>"
  by (simp add: release_step_def split: prod.splits)

lemma release_resume_pending [simp]: "pending (fst (release_resume io st sessionId page pc)) = pending st"
  by (simp add: release_resume_def split: release_pc.splits option.splits)

lemma release_step_finished:
  "i < length (pending st) \<Longrightarrow> pending st ! i = (sessionId, page, Finished) \<Longrightarrow> release_step io st i = st"
  by (simp add: release_step_task release_resume_def list_update_same_conv)


lemma release_resume_pending_update:
  "release_resume io (st\<lparr>pending := t\<rparr>) sessionId page pc
     = ((fst (release_resume io st sessionId page pc))\<lparr>pending := t\<rparr>, snd (release_resume io st sessionId page pc))"
  by (simp add: release_resume_def split: release_pc.splits option.splits)

lemma release_resume_n_pending_update:
  "release_resume_n io sessionId page k (st\<lparr>pending := t\<rparr>) pc
     = ((fst (release_resume_n io sessionId page k st pc))\<lparr>pending := t\<rparr>,
        snd (release_resume_n io sessionId page k st pc))"
proof (induction k arbitrary: st pc)
  case 0
  then show ?case by simp
next
  case (Suc k)
  show ?case
    by (simp add: release_resume_pending_update Suc split: prod.splits)
qed

lemma release_run_alone:
  "pending st = ts @ [(sessionId, page, pc)] \<Longrightarrow>
   release_run io st (replicate k (length ts))
     = (fst (release_resume_n io sessionId page k st pc))
         \<lparr>pending := ts @ [(sessionId, page, snd (release_resume_n io sessionId page k st pc))]\<rparr>"
proof (induction k arbitrary: st pc)
  case 0
  then show ?case by (simp add: release_run_def)
next
  case (Suc k)
  define st1 where "st1 = fst (release_resume io st sessionId page pc)"
  define pc1 where "pc1 = snd (release_resume io st sessionId page pc)"
  define st2 where "st2 = st1\<lparr>pending := ts @ [(sessionId, page, pc1)]\<rparr>"
  have "release_step io st (length ts) = st2"
    using Suc.prems by (simp add: release_step_task st2_def st1_def pc1_def)
  then have "release_run io st (replicate (Suc k) (length ts)) = release_run io st2 (replicate k (length ts))"
    by (simp add: release_run_def)
  also have "\<dots> = (fst (release_resume_n io sessionId page k st2 pc1))
         \<lparr>pending := ts @ [(sessionId, page, snd (release_resume_n io sessionId page k st2 pc1))]\<rparr>"
    by (rule Suc.IH) (simp add: st2_def)
  also have "\<dots> = (fst (release_resume_n io sessionId page k st1 pc1))
         \<lparr>pending := ts @ [(sessionId, page, snd (release_resume_n io sessionId page k st1 pc1))]\<rparr>"
    by (simp add: st2_def release_resume_n_pending_update)
  also have "release_resume_n io sessionId page k st1 pc1 = release_resume_n io sessionId page (Suc k) st pc"
    by (simp add: st1_def pc1_def split: prod.splits)
  finally show ?case .
qed

lemma releasePage_alone_eq:
  "releasePage io st sessionId page
     = (fst (release_resume_n io sessionId page 6 st Called))
         \<lparr>pending := pending st @ [(sessionId, page, snd (release_resume_n io sessionId page 6 st Called))]\<rparr>"
proof -
  have "pending (call_releasePage st sessionId page) = pending st @ [(sessionId, page, Called)]"
    by (simp add: call_releasePage_def)
  from release_run_alone [OF this, of io 6]
  show ?thesis
    by (simp add: releasePage_def call_releasePage_def release_resume_n_pending_update)
qed


lemma six_steps: "(6::nat) = Suc (Suc (Suc (Suc (Suc (Suc 0)))))"
  by simp

lemma releasePage_no_session:
  "activeSessions st sessionId = None \<Longrightarrow>
   releasePage io st sessionId page =
     st\<lparr>pending := pending st @ [(sessionId, page, Finished)],
        page_events := page_events st @ CloseCalled page # close_tail io page\<rparr>"
  unfolding releasePage_alone_eq six_steps by (simp add: release_resume_def close_tail_def)

lemma releasePage_rejected:
  "activeSessions st sessionId = Some ref \<Longrightarrow>
   \<not> (probe_ok (io page) \<and> length (pagePool st ref) < MAX_PAGES_PER_SESSION) \<Longrightarrow>
   releasePage io st sessionId page =
     st\<lparr>pending := pending st @ [(sessionId, page, Finished)],
        page_events := page_events st @ Probed page # CloseCalled page # close_tail io page\<rparr>"
  unfolding releasePage_alone_eq six_steps by (auto simp add: release_resume_def close_tail_def)

lemma releasePage_goto_fails:
  "activeSessions st sessionId = Some ref \<Longrightarrow>
   probe_ok (io page) \<Longrightarrow> length (pagePool st ref) < MAX_PAGES_PER_SESSION \<Longrightarrow>
   \<not> goto_ok (io page) \<Longrightarrow>
   releasePage io st sessionId page =
     st\<lparr>pending := pending st @ [(sessionId, page, Finished)],
        page_events := page_events st @ Probed page # CloseCalled page # close_tail io page\<rparr>"
  unfolding releasePage_alone_eq six_steps by (simp add: release_resume_def close_tail_def)

lemma releasePage_clear_fails:
  "activeSessions st sessionId = Some ref \<Longrightarrow>
   probe_ok (io page) \<Longrightarrow> length (pagePool st ref) < MAX_PAGES_PER_SESSION \<Longrightarrow>
   goto_ok (io page) \<Longrightarrow> \<not> clear_ok (io page) \<Longrightarrow>
   releasePage io st sessionId page =
     st\<lparr>pending := pending st @ [(sessionId, page, Finished)],
        page_events := page_events st @ Probed page # Navigated page # CloseCalled page # close_tail io page\<rparr>"
  unfolding releasePage_alone_eq six_steps by (simp add: release_resume_def close_tail_def)

lemma releasePage_pooled:
  "activeSessions st sessionId = Some ref \<Longrightarrow>
   probe_ok (io page) \<Longrightarrow> length (pagePool st ref) < MAX_PAGES_PER_SESSION \<Longrightarrow>
   goto_ok (io page) \<Longrightarrow> clear_ok (io page) \<Longrightarrow>
   releasePage io st sessionId page =
     st\<lparr>pagePool := (pagePool st)(ref := pagePool st ref @ [page]),
        pending := pending st @ [(sessionId, page, Finished)],
        page_events := page_events st @ [Probed page, Navigated page, Cleared page, Pushed page]\<rparr>"
  unfolding releasePage_alone_eq six_steps by (simp add: release_resume_def)

lemma releasePage_cases:
  obtains
    (pooled) ref where "activeSessions st sessionId = Some ref"
      "probe_ok (io page)" "goto_ok (io page)" "clear_ok (io page)"
      "length (pagePool st ref) < MAX_PAGES_PER_SESSION"
      "pagePool (releasePage io st sessionId page) = (pagePool st)(ref := pagePool st ref @ [page])"
      "new_events st (releasePage io st sessionId page)
         = [Probed page, Navigated page, Cleared page, Pushed page]"
  | (closed) "pagePool (releasePage io st sessionId page) = pagePool st"
      "CloseCalled page \<in> set (new_events st (releasePage io st sessionId page))"
      "Pushed page \<notin> set (new_events st (releasePage io st sessionId page))"
proof (cases "activeSessions st sessionId")
  case None
  show ?thesis
    by (rule closed) (simp_all add: releasePage_no_session [where io = io and page = page, OF None] new_events_def close_tail_def)
next
  case (Some ref)
  show ?thesis
  proof (cases "probe_ok (io page) \<and> length (pagePool st ref) < MAX_PAGES_PER_SESSION")
    case False
    show ?thesis
      by (rule closed) (simp_all add: releasePage_rejected [where io = io and page = page, OF Some False] new_events_def close_tail_def)
  next
    case True
    then have p: "probe_ok (io page)" and r: "length (pagePool st ref) < MAX_PAGES_PER_SESSION"
      by simp_all
    show ?thesis
    proof (cases "goto_ok (io page)")
      case False
      show ?thesis
        by (rule closed)
           (simp_all add: releasePage_goto_fails [where io = io and page = page, OF Some p r False] new_events_def close_tail_def)
    next
      case g: True
      show ?thesis
      proof (cases "clear_ok (io page)")
        case False
        show ?thesis
          by (rule closed)
             (simp_all add: releasePage_clear_fails [where io = io and page = page, OF Some p r g False] new_events_def close_tail_def)
      next
        case c: True
        show ?thesis
          by (rule pooled [OF Some p g c r])
             (simp_all add: releasePage_pooled [where io = io and page = page, OF Some p r g c] new_events_def)
      qed
    qed
  qed
qed

lemma releasePage_alone_keeps_cap:
  assumes "\<forall>ref. length (pagePool st ref) \<le> MAX_PAGES_PER_SESSION"
  shows "\<forall>ref. length (pagePool (releasePage io st sessionId page) ref) \<le> MAX_PAGES_PER_SESSION"
proof (cases rule: releasePage_cases [of st sessionId io page])
  case (pooled ref)
  then show ?thesis using assms by (auto simp: fun_upd_def)
next
  case closed
  then show ?thesis using assms by simp
qed


text \<open>
  Claim C7. The pool of a session is meant to hold at most \<^verbatim>\<open>MAX_PAGES_PER_SESSION\<close> = 5
  pages. A call that is not overlapped keeps that bound, and pools the page only after the
  probe and the reset succeeded with room in the pool, and otherwise calls \<^verbatim>\<open>page.close()\<close>
  (lemmas \<open>releasePage_alone_keeps_cap\<close> and \<open>releasePage_cases\<close>). But the test of the
  pool's length and the \<^verbatim>\<open>push\<close> are separated by two awaits: when six calls for one session
  overlap, each passes the test before any of them pushes, and the pool ends with six pages.
\<close>

theorem releasePage_overlap_exceeds_cap:
  "pagePool (release_run healthy six_pending round_robin) 0 = [1, 2, 3, 4, 5, 6]
   \<and> \<not> length (pagePool (release_run healthy six_pending round_robin) 0) \<le> MAX_PAGES_PER_SESSION"
  by code_simp

section \<open>Properties of \<^verbatim>\<open>detectXSS\<close>\<close>

lemma not_visible:
  "\<not> visible_in_finally ''releasePage''"
  "\<not> visible_in_finally ''processedPayloads''"
  "\<not> visible_in_finally ''totalPayloads''"
  by (simp_all add: visible_in_finally_def finally_block_scope_def function_scope_def module_scope_def)

lemma declared_in_inner_blocks:
  "''releasePage'' \<in> set session_block_scope"
  "''processedPayloads'' \<in> set try_block_scope"
  "''totalPayloads'' \<in> set try_block_scope"
  by (simp_all add: session_block_scope_def try_block_scope_def)

text \<open>
  Claim C1 does not hold of the code. \<^verbatim>\<open>releasePage\<close> is a \<^verbatim>\<open>const\<close> of the block of
  \<^verbatim>\<open>if (mergedOptions.session)\<close>, and the \<^verbatim>\<open>finally\<close> block, which is outside that block,
  reads it: whenever a job with session options reaches its teardown, the teardown throws
  a \<^verbatim>\<open>ReferenceError\<close> before it has released or closed the page, saved the storage state
  or closed the session, and the call rejects. (With \<^verbatim>\<open>logging.showProgress\<close> on, the same
  happens one statement earlier, on \<^verbatim>\<open>processedPayloads\<close>.)
\<close>

theorem detectXSS_session_teardown_throws:
  assumes "truthy (js_get (js_spread fileConfig options) ''session'')"
    and "acquire_error w = None"
  shows "detectXSS_call lib w fileConfig url inputFieldSelector options cache
       = (Inl (ReferenceError
                 (if opt2 (js_spread fileConfig options) ''logging'' ''showProgress''
                  then ''processedPayloads is not defined''
                  else ''releasePage is not defined'')),
          fst (snd (try_block lib w (js_spread fileConfig options) url inputFieldSelector cache)),
          [])"
proof -
  have "finally_block w (js_spread fileConfig options)
      = (Some (ReferenceError
                 (if opt2 (js_spread fileConfig options) ''logging'' ''showProgress''
                  then ''processedPayloads is not defined''
                  else ''releasePage is not defined'')), [])"
    using assms(1) by (simp add: finally_block_def not_visible)
  then show ?thesis
    using assms by (auto simp: detectXSS_call_def Let_def acquire_def split: prod.splits)
qed

theorem detectXSS_session_teardown_throws_witness:
  "truthy (js_get (js_spread quiet_config session_options) ''session'')
   \<and> acquire_error calm_world = None
   \<and> fst (detectXSS_call plain_library calm_world quiet_config ''http://target/'' ''#q'' session_options Map.empty)
       = Inl (ReferenceError ''releasePage is not defined'')
   \<and> snd (snd (detectXSS_call plain_library calm_world quiet_config ''http://target/'' ''#q''
                  session_options Map.empty)) = []"
proof -
  have s: "truthy (js_get (js_spread quiet_config session_options) ''session'')"
    by code_simp
  have a: "acquire_error calm_world = None"
    by (simp add: calm_world_def)
  have p: "\<not> opt2 (js_spread quiet_config session_options) ''logging'' ''showProgress''"
    by code_simp
  from detectXSS_session_teardown_throws [OF s a, of plain_library "''http://target/''" "''#q''" Map.empty]
    s a p
  show ?thesis by simp
qed









lemma live_test_observed:
  "live_test m payload obs = Inr (d, e) \<Longrightarrow>
   d = reflected_on payload obs \<and> e = executed_on m obs"
  by (auto simp: live_test_def reflected_on_def executed_on_def Let_def
        split: option.splits sum.splits if_splits)










lemma detectXSS_resolves:
  assumes "fst (detectXSS_call lib w fileConfig url sel options cache) = Inr r"
  shows "dr_results r = fst (try_block lib w (js_spread fileConfig options) url sel cache)"
  using assms
  by (auto simp: detectXSS_call_def Let_def split: option.splits prod.splits sum.splits)









lemma cache_sound_empty: "cache_sound lib Map.empty"
  by (simp add: cache_sound_def)

lemma cache_sound_subset:
  assumes "cache_sound lib cache" and "\<And>k e. c k = Some e \<Longrightarrow> cache k = Some e"
  shows "cache_sound lib c"
  using assms unfolding cache_sound_def by blast

lemma cache_lookup_subset:
  "cache_lookup lib cache k age = (cr, c) \<Longrightarrow> c k' = Some e \<Longrightarrow> cache k' = Some e"
  by (auto simp: cache_lookup_def split: option.splits if_splits)

lemma cache_lookup_entry:
  "cache_lookup lib cache k age = (Some entry, c) \<Longrightarrow> cache k = Some entry"
  by (auto simp: cache_lookup_def split: option.splits if_splits)

lemma check_cache_sound:
  assumes "cache_sound lib cache" and "check_cache lib m url sel payload cache = (k, cr, c)"
  shows "cache_sound lib c"
proof (cases "cache_enabled m")
  case True
  with assms(2) have "cache_lookup lib cache
      (generateCacheKey (JSON_stringify lib) (md5_hex lib) url sel payload m) (maxAge m) = (cr, c)"
    by (auto simp: check_cache_def Let_def split: prod.splits)
  from cache_lookup_subset [OF this] assms(1) show ?thesis by (rule cache_sound_subset [rotated])
next
  case False
  with assms show ?thesis by (simp add: check_cache_def)
qed

lemma check_cache_key:
  assumes "check_cache lib m url sel payload cache = (k, cr, c)" and "cache_enabled m"
  shows "k = generateCacheKey (JSON_stringify lib) (md5_hex lib) url sel payload m"
  using assms by (simp add: check_cache_def Let_def split: prod.splits)

lemma check_cache_entry:
  assumes "cache_sound lib cache" and "check_cache lib m url sel payload cache = (k, Some entry, c)"
    and "\<not> truthy (js_get m ''verifyExecution'')"
  shows "\<not> cr_executed entry"
proof (cases "cache_enabled m")
  case True
  with assms(2) have "cache_lookup lib cache
      (generateCacheKey (JSON_stringify lib) (md5_hex lib) url sel payload m) (maxAge m)
        = (Some entry, c)"
    by (auto simp: check_cache_def Let_def split: prod.splits)
  then have "cache (generateCacheKey (JSON_stringify lib) (md5_hex lib) url sel payload m)
      = Some entry"
    by (rule cache_lookup_entry)
  with assms(1,3) show ?thesis unfolding cache_sound_def by blast
next
  case False
  with assms(2) show ?thesis by (simp add: check_cache_def)
qed

lemma cacheResult_unexecuted:
  assumes "cache_sound lib c" and "\<not> cr_executed d"
  shows "cache_sound lib (cacheResult obs c k d)"
  using assms unfolding cache_sound_def cacheResult_def by (auto split: if_splits)

lemma cacheResult_separate:
  assumes "cache_sound lib c" and "fingerprint_separates lib"
    and "k = generateCacheKey (JSON_stringify lib) (md5_hex lib) url sel payload m"
    and "truthy (js_get m ''verifyExecution'')"
  shows "cache_sound lib (cacheResult obs c k d)"
  unfolding cache_sound_def
proof (intro allI impI)
  fix url' sel' payload' options' entry
  let ?k' = "generateCacheKey (JSON_stringify lib) (md5_hex lib) url' sel' payload' options'"
  assume h: "\<not> truthy (js_get options' ''verifyExecution'')
     \<and> cacheResult obs c k d ?k' = Some entry"
  have "?k' \<noteq> k"
  proof
    assume "?k' = k"
    with assms(2,3) have "truthy (js_get options' ''verifyExecution'')
        = truthy (js_get m ''verifyExecution'')"
      unfolding fingerprint_separates_def by blast
    with h assms(4) show False by simp
  qed
  with h have "c ?k' = Some entry" by (simp add: cacheResult_def split: if_splits)
  with h assms(1) show "\<not> cr_executed entry" unfolding cache_sound_def by blast
qed


lemma live_test_unverified:
  "\<not> truthy (js_get m ''verifyExecution'') \<Longrightarrow> live_test m payload obs = Inr (d, e) \<Longrightarrow> \<not> e"
  using live_test_observed [of m payload obs d e] by (simp add: executed_on_def)

lemma test_payload_unverified:
  assumes off: "\<not> truthy (js_get m ''verifyExecution'')"
    and sound: "cache_sound lib cache"
    and run: "test_payload lib m url sel payload obs cache = (pushed, cache', err)"
  shows "(\<forall>t \<in> set pushed. \<not> r_executed t) \<and> cache_sound lib cache'"
proof -
  obtain k cr c where c: "check_cache lib m url sel payload cache = (k, cr, c)"
    by (cases "check_cache lib m url sel payload cache")
  have sc: "cache_sound lib c" using sound c by (rule check_cache_sound)
  show ?thesis
  proof (cases cr)
    case (Some entry)
    have "\<not> cr_executed entry"
      using sound c off unfolding Some by (rule check_cache_entry)
    with run sc show ?thesis by (auto simp: test_payload_def c Some)
  next
    case None
    show ?thesis
    proof (cases "live_test m payload obs")
      case (Inl e)
      with run sc show ?thesis by (auto simp: test_payload_def c None)
    next
      case (Inr de)
      obtain d e where de: "de = (d, e)" by (cases de)
      have l: "live_test m payload obs = Inr (d, e)" using Inr by (simp add: de)
      have e: "\<not> e" using off l by (rule live_test_unverified)
      have w: "cache_sound lib (cacheResult obs c k \<lparr>cr_detected = x, cr_executed = False,
                 cr_timestamp = ts\<rparr>)" for x ts
        using sc by (rule cacheResult_unexecuted) simp
      from run sc w e show ?thesis
        by (auto simp: test_payload_def c None l split: if_splits)
    qed
  qed
qed

lemma test_payloads_unverified:
  assumes off: "\<not> truthy (js_get m ''verifyExecution'')"
  shows "cache_sound lib cache \<Longrightarrow> \<forall>t \<in> set results. \<not> r_executed t \<Longrightarrow>
     test_payloads lib m url sel tests results cache = (results', cache', err) \<Longrightarrow>
     (\<forall>t \<in> set results'. \<not> r_executed t) \<and> cache_sound lib cache'"
proof (induction tests arbitrary: results cache)
  case Nil
  then show ?case by simp
next
  case (Cons t tests)
  obtain payload obs where t: "t = (payload, obs)" by (cases t)
  obtain pushed c e where
    p: "test_payload lib m url sel payload obs cache = (pushed, c, e)"
    by (cases "test_payload lib m url sel payload obs cache")
  from test_payload_unverified [OF off Cons.prems(1) p]
  have q: "\<forall>t \<in> set pushed. \<not> r_executed t" and sc: "cache_sound lib c" by simp_all
  have r: "\<forall>t \<in> set (results @ pushed). \<not> r_executed t"
    using Cons.prems(2) q by auto
  show ?case
  proof (cases e)
    case None
    with Cons.prems(3) p
    have "test_payloads lib m url sel tests (results @ pushed) c = (results', cache', err)"
      by (simp add: t)
    with sc r show ?thesis by (rule Cons.IH)
  next
    case (Some x)
    with Cons.prems(3) p r sc show ?thesis by (auto simp: t)
  qed
qed

lemma try_block_unverified:
  assumes "\<not> truthy (js_get m ''verifyExecution'')" and "cache_sound lib cache"
    and "try_block lib w m url sel cache = (results, cache', err)"
  shows "(\<forall>t \<in> set results. \<not> r_executed t) \<and> cache_sound lib cache'"
proof (cases "goto_error w = None \<and> (\<exists>tests. payloadsToTest w = Inr tests)")
  case True
  then obtain tests where tests: "payloadsToTest w = Inr tests" by blast
  have "try_block lib w m url sel cache = test_payloads lib m url sel tests [] cache"
    using True assms(1) tests by (simp add: try_block_def)
  with assms(3) have "test_payloads lib m url sel tests [] cache = (results, cache', err)"
    by simp
  with test_payloads_unverified [OF assms(1,2), of "[]" url sel tests results cache' err]
  show ?thesis by simp
next
  case False
  then have "results = [] \<and> cache' = cache"
    using assms(1,3) by (auto simp: try_block_def split: option.splits sum.splits)
  with assms(2) show ?thesis by simp
qed

lemma detectXSS_cache:
  "fst (snd (detectXSS_call lib w fileConfig url sel options cache))
     = (if acquire w (js_spread fileConfig options) = None
        then fst (snd (try_block lib w (js_spread fileConfig options) url sel cache))
        else cache)"
  by (auto simp: detectXSS_call_def Let_def split: option.splits prod.splits sum.splits)

lemma js_get_spread:
  "js_get (js_spread fileConfig options) key
     = (case map_of options key of Some v \<Rightarrow> v | None \<Rightarrow> js_get fileConfig key)"
proof -
  let ?A = "map (\<lambda>(k, v). (k, case map_of options k of Some v' \<Rightarrow> v' | None \<Rightarrow> v)) fileConfig"
  let ?B = "filter (\<lambda>(k, v). k \<notin> fst ` set fileConfig) options"
  have A: "map_of ?A key
      = (case map_of fileConfig key of
           None \<Rightarrow> None
         | Some v \<Rightarrow> Some (case map_of options key of Some v' \<Rightarrow> v' | None \<Rightarrow> v))"
    by (induction fileConfig) (auto split: option.splits)
  have B: "map_of fileConfig key = None \<Longrightarrow> map_of ?B key = map_of options key"
    by (induction options) (force simp: map_of_eq_None_iff)+
  show ?thesis
    using B by (auto simp: js_get_def js_spread_def map_add_def A split: option.splits)
qed

lemma options_override:
  "js_get options ''verifyExecution'' = JBool False \<Longrightarrow>
   \<not> truthy (js_get (js_spread fileConfig options) ''verifyExecution'')"
proof -
  assume "js_get options ''verifyExecution'' = JBool False"
  then have "map_of options ''verifyExecution'' = Some (JBool False)"
    by (auto simp: js_get_def split: option.splits)
  then show ?thesis by (simp add: js_get_spread)
qed

text \<open>
  The hypothesis on the cache store is met by the empty store and kept by every call whose
  fingerprint separates the two settings, which an injective serialisation and digest do.
\<close>

lemma fingerprint_separates_inj:
  assumes "inj (JSON_stringify lib)" and "inj (md5_hex lib)"
  shows "fingerprint_separates lib"
  unfolding fingerprint_separates_def
proof (intro allI impI)
  fix url sel payload options url' sel' payload' options'
  assume "generateCacheKey (JSON_stringify lib) (md5_hex lib) url sel payload options
          = generateCacheKey (JSON_stringify lib) (md5_hex lib) url' sel' payload' options'"
  then have "cacheConfig url sel payload options = cacheConfig url' sel' payload' options'"
    using assms by (simp add: generateCacheKey_def inj_eq)
  then have "js_or (js_get options ''verifyExecution'') (JBool False)
      = js_or (js_get options' ''verifyExecution'') (JBool False)"
    by (simp add: cacheConfig_def relevantOptions_def)
  then show "truthy (js_get options ''verifyExecution'') = truthy (js_get options' ''verifyExecution'')"
    by (metis js_or_def truthy.simps(3))
qed

lemma test_payload_keeps_cache_sound:
  assumes sep: "fingerprint_separates lib" and sound: "cache_sound lib cache"
  shows "cache_sound lib (fst (snd (test_payload lib m url sel payload obs cache)))"
proof (cases "truthy (js_get m ''verifyExecution'')")
  case False
  obtain pushed cache' err where
    "test_payload lib m url sel payload obs cache = (pushed, cache', err)"
    by (cases "test_payload lib m url sel payload obs cache")
  with test_payload_unverified [OF False sound this] show ?thesis by simp
next
  case on: True
  obtain k cr c where c: "check_cache lib m url sel payload cache = (k, cr, c)"
    by (cases "check_cache lib m url sel payload cache")
  have sc: "cache_sound lib c" using sound c by (rule check_cache_sound)
  have w: "cache_enabled m \<Longrightarrow> cache_sound lib (cacheResult obs c k d)" for d
    using sc sep check_cache_key [OF c] on by (rule cacheResult_separate)
  show ?thesis
  proof (cases cr)
    case (Some entry)
    with sc show ?thesis by (simp add: test_payload_def c)
  next
    case None
    show ?thesis
    proof (cases "live_test m payload obs")
      case (Inl e)
      with sc show ?thesis by (simp add: test_payload_def c None)
    next
      case (Inr de)
      obtain d e where "de = (d, e)" by (cases de)
      with Inr sc w show ?thesis by (simp add: test_payload_def c None)
    qed
  qed
qed

lemma test_payloads_keep_cache_sound:
  assumes sep: "fingerprint_separates lib"
  shows "cache_sound lib cache \<Longrightarrow>
         cache_sound lib (fst (snd (test_payloads lib m url sel tests results cache)))"
proof (induction tests arbitrary: results cache)
  case Nil
  then show ?case by simp
next
  case (Cons t tests)
  obtain payload obs where t: "t = (payload, obs)" by (cases t)
  obtain pushed c e where
    p: "test_payload lib m url sel payload obs cache = (pushed, c, e)"
    by (cases "test_payload lib m url sel payload obs cache")
  have sc: "cache_sound lib c"
    using test_payload_keeps_cache_sound [OF sep Cons.prems, of m url sel payload obs] p by simp
  show ?case
  proof (cases e)
    case None
    with p Cons.IH [OF sc, of "results @ pushed"] show ?thesis by (simp add: t)
  next
    case (Some x)
    with p sc show ?thesis by (simp add: t)
  qed
qed

lemma detectXSS_keeps_cache_sound:
  assumes "fingerprint_separates lib" and "cache_sound lib cache"
  shows "cache_sound lib (fst (snd (detectXSS_call lib w fileConfig url sel options cache)))"
proof -
  have "cache_sound lib (fst (snd (try_block lib w m url sel cache)))" for m
    using assms test_payloads_keep_cache_sound [OF assms]
    by (auto simp: try_block_def split: option.splits sum.splits)
  with assms(2) show ?thesis by (simp add: detectXSS_cache)
qed

text \<open>
  Claim C6. Let the cache store be sound: the entries filed under fingerprints of
  configurations with \<^verbatim>\<open>verifyExecution\<close> off say \<^verbatim>\<open>executed: false\<close>. Then with
  \<^verbatim>\<open>verifyExecution\<close> off in the merged options (as when \<^verbatim>\<open>options.verifyExecution\<close> is
  \<^verbatim>\<open>false\<close>), every result returned has \<^verbatim>\<open>executed: false\<close>, also one taken from the cache.
  The call leaves the store sound, when \<^verbatim>\<open>verifyExecution\<close> is off and also, the
  fingerprint separating the two settings, when it is on; so the store stays sound from
  the empty store on.
\<close>

theorem detectXSS_unverified_never_executed:
  assumes "cache_sound lib cache"
  shows "(\<not> truthy (js_get (js_spread fileConfig options) ''verifyExecution'')
          \<and> fst (detectXSS_call lib w fileConfig url sel options cache) = Inr r
          \<longrightarrow> (\<forall>t \<in> set (dr_results r). \<not> r_executed t))
       \<and> (\<not> truthy (js_get (js_spread fileConfig options) ''verifyExecution'')
            \<or> fingerprint_separates lib
          \<longrightarrow> cache_sound lib (fst (snd (detectXSS_call lib w fileConfig url sel options cache))))"
proof (intro conjI impI)
  define m where "m = js_spread fileConfig options"
  obtain results cache' err where
    t: "try_block lib w m url sel cache = (results, cache', err)"
    by (cases "try_block lib w m url sel cache")
  {
    assume h: "\<not> truthy (js_get (js_spread fileConfig options) ''verifyExecution'')
          \<and> fst (detectXSS_call lib w fileConfig url sel options cache) = Inr r"
    then have off: "\<not> truthy (js_get m ''verifyExecution'')" by (simp add: m_def)
    from try_block_unverified [OF off assms t]
    have res: "\<forall>t \<in> set results. \<not> r_executed t" by simp
    have "dr_results r = results"
      using h detectXSS_resolves [of lib w fileConfig url sel options cache r] t
      by (simp add: m_def)
    with res show "\<forall>t \<in> set (dr_results r). \<not> r_executed t" by simp
  }
  {
    assume h: "\<not> truthy (js_get (js_spread fileConfig options) ''verifyExecution'')
            \<or> fingerprint_separates lib"
    show "cache_sound lib (fst (snd (detectXSS_call lib w fileConfig url sel options cache)))"
    proof (cases "fingerprint_separates lib")
      case True
      then show ?thesis using assms by (rule detectXSS_keeps_cache_sound)
    next
      case False
      with h have off: "\<not> truthy (js_get m ''verifyExecution'')" by (simp add: m_def)
      from try_block_unverified [OF off assms t]
      have "cache_sound lib cache'" by simp
      with assms t show ?thesis by (simp add: detectXSS_cache m_def [symmetric])
    qed
  }
qed

theorem detectXSS_unverified_never_executed_witness:
  "\<not> truthy (js_get (js_spread quiet_config unverified_cached_options) ''verifyExecution'')
   \<and> cache_sound keyed_library warm_cache
   \<and> fst (detectXSS_call keyed_library two_world quiet_config ''http://target/'' ''#q''
            unverified_cached_options warm_cache)
       = Inr \<lparr>dr_results =
                [\<lparr>r_payload = ''<b>hi</b>'', r_reflected = True, r_executed = False,
                  r_url = ''http://target/'', r_timestamp = ''2023-12-31T00:00:00.000Z'',
                  r_fromCache = True\<rparr>,
                 \<lparr>r_payload = ''<script>alert(1)</script>'', r_reflected = True,
                  r_executed = False, r_url = ''http://target/'',
                  r_timestamp = ''2024-01-01T00:00:00.000Z'', r_fromCache = False\<rparr>],
              dr_reportPaths = []\<rparr>
   \<and> xssDetected exploited_page = Inr True
   \<and> cache_sound keyed_library
         (fst (snd (detectXSS_call keyed_library two_world quiet_config ''http://target/'' ''#q''
                      unverified_cached_options warm_cache)))"
proof -
  have off: "\<not> truthy (js_get (js_spread quiet_config unverified_cached_options) ''verifyExecution'')"
    by code_simp
  have sound: "cache_sound keyed_library warm_cache"
    by (auto simp: cache_sound_def warm_cache_def split: if_splits)
  have run: "fst (detectXSS_call keyed_library two_world quiet_config ''http://target/'' ''#q''
            unverified_cached_options warm_cache)
       = Inr \<lparr>dr_results =
                [\<lparr>r_payload = ''<b>hi</b>'', r_reflected = True, r_executed = False,
                  r_url = ''http://target/'', r_timestamp = ''2023-12-31T00:00:00.000Z'',
                  r_fromCache = True\<rparr>,
                 \<lparr>r_payload = ''<script>alert(1)</script>'', r_reflected = True,
                  r_executed = False, r_url = ''http://target/'',
                  r_timestamp = ''2024-01-01T00:00:00.000Z'', r_fromCache = False\<rparr>],
              dr_reportPaths = []\<rparr>"
    by code_simp
  have page: "xssDetected exploited_page = Inr True"
    by (simp add: exploited_page_def)
  from detectXSS_unverified_never_executed [OF sound, of quiet_config unverified_cached_options
      two_world "''http://target/''" "''#q''"] off sound run page
  show ?thesis by simp
qed

end
